theory Spec2Isabelle
  imports Main "HOL-Library.Word"
begin

unbundle bit_operations_syntax

section \<open>The tinyboot interpreter (src/tinyboot.py)\<close>

text \<open>
  The interpreter is a Python 2 module working on global variables. The model threads
  one record of these globals through every function. A Python exception is the left
  summand of the result, a normal return the right one.
\<close>

subsection \<open>Exceptions and table entries\<close>

text \<open>
  The exceptions the module can end with. \<open>AssertionError None\<close> is the bare
  \<^verbatim>\<open>assert start_address is not None\<close> of \<^verbatim>\<open>tbfrun\<close>;
  \<open>AssertionError (Some (byte, excerpt))\<close> is the assertion of \<^verbatim>\<open>tbfcompile\<close>,
  whose message is built from the two values \<^verbatim>\<open>(byte, program[excerpt_beginning:program_counter])\<close>.
  \<open>SystemExit\<close> is what \<^verbatim>\<open>sys.exit(0)\<close> raises.
\<close>

datatype exn =
    IndexError
  | ValueError
  | TypeError
  | KeyError char
  | AssertionError "(char \<times> string) option"
  | SystemExit

text \<open>
  The values of \<^verbatim>\<open>run_time_dispatch\<close>: the built-in functions, and the two
  closures \<^verbatim>\<open>push_dataspace_label(n)\<close> and \<^verbatim>\<open>call_function(n)\<close> with the
  value they captured.
\<close>

datatype action =
    EatComment
  | WriteOut
  | ReadByte
  | Quit
  | Add
  | BitwiseNot
  | Fetch
  | Store
  | ReturnFromFunction
  | Nop
  | PushLiteral
  | PushDataspaceLabel int
  | CallFunction nat

text \<open>The values of \<^verbatim>\<open>compile_time_dispatch\<close>.\<close>

datatype compile_action =
    CEatComment
  | CDataspaceLabel
  | CDefineFunction
  | CLiteralByte
  | CLiteralWord
  | CSetStartAddress
  | CNop

subsection \<open>The global state\<close>

text \<open>
  \<open>stack\<close> and \<open>rstack\<close> are Python lists used with \<^verbatim>\<open>append\<close> and \<^verbatim>\<open>pop\<close> only;
  the model keeps the top of the stack at the head of the list. \<open>memory\<close> is kept in
  address order. The program counter is a natural number: the module only ever adds one to
  it, assigns it an earlier value of itself, or subtracts one right after adding one.
  \<open>stdin\<close> is the unread input and \<open>stdout\<close> the output written so far; the trace
  lines written to stderr are not modelled.
\<close>

record tbf_state =
  program :: string
  program_counter :: nat
  start_address :: "nat option"
  memory :: "int list"
  stack :: "int list"
  rstack :: "nat list"
  run_time_dispatch :: "char \<rightharpoonup> action"
  stdin :: string
  stdout :: string

subsection \<open>Python list operations\<close>

text \<open>
  One bound of a slice \<^verbatim>\<open>xs[i:j]\<close> on a list of length \<open>n\<close>: a negative bound counts
  from the end, and the result is clamped to \<open>0..n\<close>.
\<close>

definition slice_index :: "nat \<Rightarrow> int \<Rightarrow> nat" where
  "slice_index n i =
     (if i < 0 then (if i + int n < 0 then 0 else nat (i + int n))
      else if int n < i then n else nat i)"

text \<open>\<^verbatim>\<open>xs[i:j]\<close>: never raises; an upper bound below the lower one gives the empty list.\<close>

definition getslice :: "'a list \<Rightarrow> int \<Rightarrow> int \<Rightarrow> 'a list" where
  "getslice xs i j =
     (let lo = slice_index (length xs) i;
          hi = max lo (slice_index (length xs) j)
      in take (hi - lo) (drop lo xs))"

text \<open>\<^verbatim>\<open>xs[i:j] = ys\<close>: never raises; the slice is replaced by \<open>ys\<close> whatever its length.\<close>

definition setslice :: "'a list \<Rightarrow> int \<Rightarrow> int \<Rightarrow> 'a list \<Rightarrow> 'a list" where
  "setslice xs i j ys =
     (let lo = slice_index (length xs) i;
          hi = max lo (slice_index (length xs) j)
      in take lo xs @ ys @ drop hi xs)"

text \<open>\<^verbatim>\<open>xs[i]\<close>: a negative index counts from the end; outside \<open>-n..n-1\<close> it raises.\<close>

definition getitem :: "'a list \<Rightarrow> int \<Rightarrow> exn + 'a" where
  "getitem xs i =
     (if i < - int (length xs) \<or> int (length xs) \<le> i then Inl IndexError
      else if i < 0 then Inr (xs ! nat (i + int (length xs)))
      else Inr (xs ! nat i))"

text \<open>
  \<^verbatim>\<open>range(a, b)\<close>. The limits of building the list (Python 2 refuses a range of more
  elements than its list type can hold) are not modelled.
\<close>

definition py_range :: "int \<Rightarrow> int \<Rightarrow> int list" where
  "py_range a b = map (\<lambda>k. a + int k) [0..<nat (b - a)]"

text \<open>\<^verbatim>\<open>chr(n)\<close> of Python 2.\<close>

definition py_chr :: "int \<Rightarrow> exn + char" where
  "py_chr n = (if 0 \<le> n \<and> n < 256 then Inr (char_of n) else Inl ValueError)"

text \<open>
  \<^verbatim>\<open>int(s)\<close> for a string of decimal digits, the only strings \<^verbatim>\<open>read_number\<close>
  passes; the empty string raises.
\<close>

definition digit_value :: "char \<Rightarrow> int" where
  "digit_value c = of_char c - 48"

definition py_int :: "string \<Rightarrow> exn + int" where
  "py_int s = (if s = [] then Inl ValueError
               else Inr (foldl (\<lambda>a c. 10 * a + digit_value c) 0 s))"

subsection \<open>Compile-time actions\<close>

definition eat_byte :: "tbf_state \<Rightarrow> tbf_state" where
  "eat_byte s = s\<lparr>program_counter := program_counter s + 1\<rparr>"

text \<open>
  \<^verbatim>\<open>while program[program_counter] != ')': eat_byte()\<close> and the final \<^verbatim>\<open>eat_byte()\<close>.
  Reading \<^verbatim>\<open>program[program_counter]\<close> at or past the end raises.
\<close>

function eat_comment :: "tbf_state \<Rightarrow> exn + tbf_state" where
  "eat_comment s =
     (if program_counter s < length (program s) then
        (if program s ! program_counter s \<noteq> CHR '')'' then eat_comment (eat_byte s)
         else Inr (eat_byte s))
      else Inl IndexError)"
  by pat_completeness auto
termination
  by (relation "measure (\<lambda>s. length (program s) - program_counter s)")
     (auto simp: eat_byte_def)

function advance_past_whitespace :: "tbf_state \<Rightarrow> exn + tbf_state" where
  "advance_past_whitespace s =
     (if program_counter s < length (program s) then
        (if program s ! program_counter s \<in> set '' \<newline>''
         then advance_past_whitespace (eat_byte s)
         else Inr s)
      else Inl IndexError)"
  by pat_completeness auto
termination
  by (relation "measure (\<lambda>s. length (program s) - program_counter s)")
     (auto simp: eat_byte_def)

definition dataspace_label :: "tbf_state \<Rightarrow> exn + tbf_state" where
  "dataspace_label s =
     (case advance_past_whitespace s of
        Inl e \<Rightarrow> Inl e
      | Inr s1 \<Rightarrow>
          if program_counter s1 < length (program s1) then
            let name = program s1 ! program_counter s1;
                s2 = eat_byte s1
            in Inr (s2\<lparr>run_time_dispatch :=
                       (run_time_dispatch s2)(name \<mapsto> PushDataspaceLabel (int (length (memory s2))))\<rparr>)
          else Inl IndexError)"

definition define_function :: "tbf_state \<Rightarrow> exn + tbf_state" where
  "define_function s =
     (case advance_past_whitespace s of
        Inl e \<Rightarrow> Inl e
      | Inr s1 \<Rightarrow>
          if program_counter s1 < length (program s1) then
            let name = program s1 ! program_counter s1;
                s2 = eat_byte s1
            in Inr (s2\<lparr>run_time_dispatch :=
                       (run_time_dispatch s2)(name \<mapsto> CallFunction (program_counter s2))\<rparr>)
          else Inl IndexError)"

text \<open>The loop of \<^verbatim>\<open>read_number\<close>: \<^verbatim>\<open>while program[program_counter] in '0123456789': eat_byte()\<close>.\<close>

function eat_digits :: "tbf_state \<Rightarrow> exn + tbf_state" where
  "eat_digits s =
     (if program_counter s < length (program s) then
        (if program s ! program_counter s \<in> set ''0123456789''
         then eat_digits (eat_byte s)
         else Inr s)
      else Inl IndexError)"
  by pat_completeness auto
termination
  by (relation "measure (\<lambda>s. length (program s) - program_counter s)")
     (auto simp: eat_byte_def)

text \<open>
  \<^verbatim>\<open>read_number\<close> returns \<^verbatim>\<open>int(program[start:program_counter])\<close>; both bounds are
  within the program text when the loop has returned.
\<close>

definition read_number :: "tbf_state \<Rightarrow> exn + (int \<times> tbf_state)" where
  "read_number s =
     (let start = program_counter s in
      case eat_digits s of
        Inl e \<Rightarrow> Inl e
      | Inr s1 \<Rightarrow>
          (case py_int (take (program_counter s1 - start) (drop start (program s1))) of
             Inl e \<Rightarrow> Inl e
           | Inr n \<Rightarrow> Inr (n, s1)))"

definition literal_byte :: "tbf_state \<Rightarrow> exn + tbf_state" where
  "literal_byte s =
     (case advance_past_whitespace s of
        Inl e \<Rightarrow> Inl e
      | Inr s1 \<Rightarrow>
          (case read_number s1 of
             Inl e \<Rightarrow> Inl e
           | Inr (n, s2) \<Rightarrow> Inr (s2\<lparr>memory := memory s2 @ [n]\<rparr>)))"

text \<open>
  \<^verbatim>\<open>[num & 255, num >> 8 & 255, num >> 16 & 255, num >> 24 & 255]\<close>; in Python
  \<^verbatim>\<open>>>\<close> binds tighter than \<^verbatim>\<open>&\<close>, and both act on unbounded two's-complement integers.
\<close>

definition as_bytes :: "int \<Rightarrow> int list" where
  "as_bytes num =
     [num AND 255, drop_bit 8 num AND 255, drop_bit 16 num AND 255, drop_bit 24 num AND 255]"

definition literal_word :: "tbf_state \<Rightarrow> exn + tbf_state" where
  "literal_word s =
     (case advance_past_whitespace s of
        Inl e \<Rightarrow> Inl e
      | Inr s1 \<Rightarrow>
          (case read_number s1 of
             Inl e \<Rightarrow> Inl e
           | Inr (n, s2) \<Rightarrow> Inr (s2\<lparr>memory := memory s2 @ as_bytes n\<rparr>)))"

definition set_start_address :: "tbf_state \<Rightarrow> tbf_state" where
  "set_start_address s = s\<lparr>start_address := Some (program_counter s)\<rparr>"

definition compile_time_dispatch :: "char \<rightharpoonup> compile_action" where
  "compile_time_dispatch =
     map_of [(CHR ''('', CEatComment),
             (CHR ''v'', CDataspaceLabel),
             (CHR '':'', CDefineFunction),
             (CHR ''b'', CLiteralByte),
             (CHR ''#'', CLiteralWord),
             (CHR ''^'', CSetStartAddress),
             (CHR '' '', CNop),
             (CHR 0x0A, CNop)]"

fun compile_call :: "compile_action \<Rightarrow> tbf_state \<Rightarrow> exn + tbf_state" where
  "compile_call CEatComment s = eat_comment s"
| "compile_call CDataspaceLabel s = dataspace_label s"
| "compile_call CDefineFunction s = define_function s"
| "compile_call CLiteralByte s = literal_byte s"
| "compile_call CLiteralWord s = literal_word s"
| "compile_call CSetStartAddress s = Inr (set_start_address s)"
| "compile_call CNop s = Inr s"

text \<open>
  One iteration of the loop of \<^verbatim>\<open>tbfcompile\<close>, entered with
  \<^verbatim>\<open>program_counter < len(program)\<close>. The excerpt is
  \<^verbatim>\<open>program[max(0, program_counter - 10):program_counter]\<close>, taken after
  \<^verbatim>\<open>eat_byte()\<close> has moved the counter past the byte.
\<close>

definition tbfcompile_step :: "tbf_state \<Rightarrow> exn + tbf_state" where
  "tbfcompile_step s =
     (let byte = program s ! program_counter s;
          s1 = eat_byte s
      in case compile_time_dispatch byte of
           Some a \<Rightarrow> compile_call a s1
         | None \<Rightarrow>
             if run_time_dispatch s1 byte \<noteq> None then Inr s1
             else
               let excerpt_beginning = program_counter s1 - 10
               in Inl (AssertionError
                         (Some (byte, drop excerpt_beginning
                                        (take (program_counter s1) (program s1))))))"

text \<open>
  \<^verbatim>\<open>while program_counter < len(program): ...\<close>. The result is \<open>None\<close> if the loop
  does not end, \<open>Some (Inl e)\<close> if it ends with an exception and \<open>Some (Inr s)\<close> if
  it returns.
\<close>

partial_function (option) tbfcompile :: "tbf_state \<Rightarrow> (exn + tbf_state) option" where
  "tbfcompile s =
     (if program_counter s < length (program s) then
        (case tbfcompile_step s of
           Inl e \<Rightarrow> Some (Inl e)
         | Inr s1 \<Rightarrow> tbfcompile s1)
      else Some (Inr s))"

declare tbfcompile.simps [code]

subsection \<open>Run-time actions\<close>

text \<open>\<^verbatim>\<open>[chr(memory[ii]) for ii in range(address, address+count)]\<close>, element by element.\<close>

fun chars_at :: "int list \<Rightarrow> int list \<Rightarrow> exn + string" where
  "chars_at mem [] = Inr []"
| "chars_at mem (ii # iis) =
     (case getitem mem ii of
        Inl e \<Rightarrow> Inl e
      | Inr v \<Rightarrow>
          (case py_chr v of
             Inl e \<Rightarrow> Inl e
           | Inr c \<Rightarrow>
               (case chars_at mem iis of
                  Inl e \<Rightarrow> Inl e
                | Inr cs \<Rightarrow> Inr (c # cs))))"

definition write_out :: "tbf_state \<Rightarrow> exn + tbf_state" where
  "write_out s =
     (case stack s of
        count # address # rest \<Rightarrow>
          (case chars_at (memory s) (py_range address (address + count)) of
             Inl e \<Rightarrow> Inl e
           | Inr cs \<Rightarrow> Inr (s\<lparr>stack := rest, stdout := stdout s @ cs\<rparr>))
      | _ \<Rightarrow> Inl IndexError)"

definition quit :: "tbf_state \<Rightarrow> exn + tbf_state" where
  "quit s = Inl SystemExit"

definition add :: "tbf_state \<Rightarrow> exn + tbf_state" where
  "add s =
     (case stack s of
        a # b # rest \<Rightarrow> Inr (s\<lparr>stack := (a + b) # rest\<rparr>)
      | _ \<Rightarrow> Inl IndexError)"

text \<open>
  \<^verbatim>\<open>program_counter -= 1\<close> follows the \<^verbatim>\<open>eat_byte()\<close> of the run loop, so the
  counter is positive there.
\<close>

definition push_literal :: "tbf_state \<Rightarrow> exn + tbf_state" where
  "push_literal s =
     (case read_number (s\<lparr>program_counter := program_counter s - 1\<rparr>) of
        Inl e \<Rightarrow> Inl e
      | Inr (n, s1) \<Rightarrow> Inr (s1\<lparr>stack := n # stack s1\<rparr>))"

text \<open>
  \<^verbatim>\<open>bytes[0] | bytes[1] << 8 | bytes[2] << 16 | bytes[3] << 24\<close>; indexing a list
  shorter than four raises.
\<close>

definition decode :: "int list \<Rightarrow> exn + int" where
  "decode bytes =
     (if length bytes < 4 then Inl IndexError
      else Inr (bytes ! 0 OR push_bit 8 (bytes ! 1) OR push_bit 16 (bytes ! 2)
                OR push_bit 24 (bytes ! 3)))"

definition fetch :: "tbf_state \<Rightarrow> exn + tbf_state" where
  "fetch s =
     (case stack s of
        addr # rest \<Rightarrow>
          (case decode (getslice (memory s) addr (addr + 4)) of
             Inl e \<Rightarrow> Inl e
           | Inr v \<Rightarrow> Inr (s\<lparr>stack := v # rest\<rparr>))
      | [] \<Rightarrow> Inl IndexError)"

definition store :: "tbf_state \<Rightarrow> exn + tbf_state" where
  "store s =
     (case stack s of
        addr # v # rest \<Rightarrow>
          Inr (s\<lparr>stack := rest,
                 memory := setslice (memory s) addr (addr + 4) (as_bytes v)\<rparr>)
      | _ \<Rightarrow> Inl IndexError)"

definition bitwise_not :: "tbf_state \<Rightarrow> exn + tbf_state" where
  "bitwise_not s =
     (case stack s of
        v # rest \<Rightarrow> Inr (s\<lparr>stack := (v XOR 0xffffffff) # rest\<rparr>)
      | [] \<Rightarrow> Inl IndexError)"

definition return_from_function :: "tbf_state \<Rightarrow> exn + tbf_state" where
  "return_from_function s =
     (case rstack s of
        n # rest \<Rightarrow> Inr (s\<lparr>rstack := rest, program_counter := n\<rparr>)
      | [] \<Rightarrow> Inl IndexError)"

text \<open>\<^verbatim>\<open>ord(sys.stdin.read(1))\<close>: at the end of the input \<^verbatim>\<open>ord('')\<close> raises.\<close>

definition read_byte :: "tbf_state \<Rightarrow> exn + tbf_state" where
  "read_byte s =
     (case stdin s of
        c # cs \<Rightarrow> Inr (s\<lparr>stdin := cs, stack := of_char c # stack s\<rparr>)
      | [] \<Rightarrow> Inl TypeError)"

definition push_dataspace_label :: "int \<Rightarrow> tbf_state \<Rightarrow> exn + tbf_state" where
  "push_dataspace_label n s = Inr (s\<lparr>stack := n # stack s\<rparr>)"

definition call_function :: "nat \<Rightarrow> tbf_state \<Rightarrow> exn + tbf_state" where
  "call_function n s =
     Inr (s\<lparr>rstack := program_counter s # rstack s, program_counter := n\<rparr>)"

text \<open>Calling a value of \<^verbatim>\<open>run_time_dispatch\<close>.\<close>

fun call :: "action \<Rightarrow> tbf_state \<Rightarrow> exn + tbf_state" where
  "call EatComment s = eat_comment s"
| "call WriteOut s = write_out s"
| "call ReadByte s = read_byte s"
| "call Quit s = quit s"
| "call Add s = add s"
| "call BitwiseNot s = bitwise_not s"
| "call Fetch s = fetch s"
| "call Store s = store s"
| "call ReturnFromFunction s = return_from_function s"
| "call Nop s = Inr s"
| "call PushLiteral s = push_literal s"
| "call (PushDataspaceLabel n) s = push_dataspace_label n s"
| "call (CallFunction n) s = call_function n s"

text \<open>
  The dictionary literal of \<^verbatim>\<open>run_time_dispatch\<close>, and the loop
  \<^verbatim>\<open>for digit in '0123456789': run_time_dispatch[digit] = push_literal\<close>.
\<close>

definition initial_run_time_dispatch :: "char \<rightharpoonup> action" where
  "initial_run_time_dispatch =
     foldl (\<lambda>m digit. m(digit \<mapsto> PushLiteral))
       (map_of [(CHR ''('', EatComment),
                (CHR ''W'', WriteOut),
                (CHR ''G'', ReadByte),
                (CHR ''Q'', Quit),
                (CHR ''+'', Add),
                (CHR ''~'', BitwiseNot),
                (CHR ''@'', Fetch),
                (CHR ''!'', Store),
                (CHR '';'', ReturnFromFunction),
                (CHR '' '', Nop),
                (CHR 0x0A, Nop)])
       ''0123456789''"

text \<open>The globals as the module sets them up, with the program text read by \<^verbatim>\<open>main\<close>.\<close>

definition initial_state :: "string \<Rightarrow> string \<Rightarrow> tbf_state" where
  "initial_state text input =
     \<lparr>program = text, program_counter = 0, start_address = None, memory = [],
      stack = [], rstack = [], run_time_dispatch = initial_run_time_dispatch,
      stdin = input, stdout = []\<rparr>"

text \<open>
  One iteration of the loop of \<^verbatim>\<open>tbfrun\<close>: \<^verbatim>\<open>byte = program[program_counter]\<close>,
  \<^verbatim>\<open>eat_byte()\<close>, \<^verbatim>\<open>run_time_dispatch[byte]()\<close>.
\<close>

definition tbfrun_step :: "tbf_state \<Rightarrow> exn + tbf_state" where
  "tbfrun_step s =
     (if program_counter s < length (program s) then
        (let byte = program s ! program_counter s;
             s1 = eat_byte s
         in case run_time_dispatch s1 byte of
              None \<Rightarrow> Inl (KeyError byte)
            | Some a \<Rightarrow> call a s1)
      else Inl IndexError)"

text \<open>
  \<^verbatim>\<open>while True: ...\<close>: the loop never returns. It ends with an exception, reported
  with the state in which it was raised, or it runs forever (\<open>None\<close>).
\<close>

partial_function (option) tbfrun_loop :: "tbf_state \<Rightarrow> (exn \<times> tbf_state) option" where
  "tbfrun_loop s =
     (case tbfrun_step s of
        Inl e \<Rightarrow> Some (e, s)
      | Inr s1 \<Rightarrow> tbfrun_loop s1)"

declare tbfrun_loop.simps [code]

definition tbfrun :: "tbf_state \<Rightarrow> (exn \<times> tbf_state) option" where
  "tbfrun s =
     (case start_address s of
        None \<Rightarrow> Some (AssertionError None, s)
      | Some a \<Rightarrow> tbfrun_loop (s\<lparr>program_counter := a\<rparr>))"

text \<open>
  \<^verbatim>\<open>main\<close>: \<^verbatim>\<open>tbfcompile()\<close>, then \<^verbatim>\<open>tbfrun()\<close>. The module ends with an
  exception in either case.
\<close>

definition main :: "string \<Rightarrow> string \<Rightarrow> (exn \<times> tbf_state) option" where
  "main text input =
     (case tbfcompile (initial_state text input) of
        None \<Rightarrow> None
      | Some (Inl e) \<Rightarrow> Some (e, initial_state text input)
      | Some (Inr s) \<Rightarrow> tbfrun s)"

subsection \<open>Frame of the compile pass\<close>

text \<open>
  What the compile-time actions leave alone: the program text, both stacks and the
  streams; the counter does not move back and \<open>memory\<close> keeps what it held.
\<close>

definition compile_frame :: "tbf_state \<Rightarrow> tbf_state \<Rightarrow> bool" where
  "compile_frame s s1 \<longleftrightarrow>
     program s1 = program s \<and> program_counter s \<le> program_counter s1
     \<and> program_counter s1 \<le> length (program s)
     \<and> (\<exists>xs. memory s1 = memory s @ xs)
     \<and> stack s1 = stack s \<and> rstack s1 = rstack s
     \<and> stdin s1 = stdin s \<and> stdout s1 = stdout s"

subsection \<open>The excerpt as the specification words it\<close>

text \<open>
  Following the spec's words, "an excerpt of up to 10 bytes preceding" the token: the bytes
  of \<open>text\<close> before offset \<open>k\<close>, at most ten of them. It is compared below with the
  excerpt \<^verbatim>\<open>tbfcompile\<close> builds.
\<close>

definition spec_excerpt :: "string \<Rightarrow> nat \<Rightarrow> string" where
  "spec_excerpt text k = drop (k - 10) (take k text)"

subsection \<open>The iterations of the compile pass\<close>

text \<open>
  The state at the head of the \<open>n\<close>-th iteration of the loop of \<^verbatim>\<open>tbfcompile\<close> started
  in \<open>s\<close>; \<open>None\<close> when the loop has ended or raised before. An iteration executes the
  \<^verbatim>\<open>^\<close> entry of \<^verbatim>\<open>compile_time_dispatch\<close> exactly when the byte it reads is \<^verbatim>\<open>^\<close>: a
  \<^verbatim>\<open>^\<close> inside a comment, or taken as the name after \<^verbatim>\<open>v\<close> or \<^verbatim>\<open>:\<close>, is consumed
  inside another iteration and is read by none.
\<close>

fun tbfcompile_states :: "nat \<Rightarrow> tbf_state \<Rightarrow> tbf_state option" where
  "tbfcompile_states 0 s = Some s"
| "tbfcompile_states (Suc n) s =
     (if program_counter s < length (program s) then
        (case tbfcompile_step s of
           Inl e \<Rightarrow> None
         | Inr s1 \<Rightarrow> tbfcompile_states n s1)
      else None)"

definition marker_iteration :: "nat \<Rightarrow> tbf_state \<Rightarrow> bool" where
  "marker_iteration n s =
     (case tbfcompile_states n s of
        None \<Rightarrow> False
      | Some t \<Rightarrow> program_counter t < length (program t)
                  \<and> program t ! program_counter t = CHR ''^'')"

subsection \<open>The values a program can produce\<close>

text \<open>
  No number the module computes is negative: decimal literals, sums, \<^verbatim>\<open>ord\<close>, \<^verbatim>\<open>len\<close>,
  the result of \<^verbatim>\<open>& 255\<close>, of \<^verbatim>\<open>decode\<close> and of \<^verbatim>\<open>^ 0xffffffff\<close> on such numbers.
  The predicate says so of the stack, of \<open>memory\<close> and of the numbers held by the label
  actions; it holds in the initial state and is kept by both passes (proved below).
\<close>

definition nonnegative :: "tbf_state \<Rightarrow> bool" where
  "nonnegative s \<longleftrightarrow>
     (\<forall>v\<in>set (stack s). 0 \<le> v) \<and> (\<forall>b\<in>set (memory s). 0 \<le> b)
     \<and> (\<forall>c. case run_time_dispatch s c of
               Some (PushDataspaceLabel n) \<Rightarrow> 0 \<le> n
             | _ \<Rightarrow> True)"

section \<open>Properties\<close>

declare eat_comment.simps [simp del]
declare advance_past_whitespace.simps [simp del]
declare eat_digits.simps [simp del]

subsection \<open>The four-byte encoding\<close>

lemma and_255: "(k::int) AND 255 = take_bit 8 k"
  by (simp add: take_bit_eq_mask mask_eq_exp_minus_1)

lemma decode_as_bytes: "decode (as_bytes v) = Inr (take_bit 32 v)"
proof -
  have "take_bit 8 v OR push_bit 8 (take_bit 8 (drop_bit 8 v))
          OR push_bit 16 (take_bit 8 (drop_bit 16 v))
          OR push_bit 24 (take_bit 8 (drop_bit 24 v)) = take_bit 32 v"
  proof (rule bit_eqI)
    fix n :: nat
    consider "n < 8" | "8 \<le> n" "n < 16" | "16 \<le> n" "n < 24" | "24 \<le> n" "n < 32" | "32 \<le> n"
      by linarith
    then show "bit (take_bit 8 v OR push_bit 8 (take_bit 8 (drop_bit 8 v))
          OR push_bit 16 (take_bit 8 (drop_bit 16 v))
          OR push_bit 24 (take_bit 8 (drop_bit 24 v))) n = bit (take_bit 32 v) n"
      by cases (auto simp: bit_or_iff bit_push_bit_iff bit_take_bit_iff bit_drop_bit_eq)
  qed
  then show ?thesis
    by (simp add: decode_def as_bytes_def and_255)
qed

text \<open>
  C4. For every \<open>v\<close> with \<open>0 \<le> v < 2^32\<close>, \<^verbatim>\<open>as_bytes\<close> gives exactly four bytes and
  \<^verbatim>\<open>decode\<close> of them gives \<open>v\<close> back.
\<close>

theorem as_bytes_decode_roundtrip:
  "0 \<le> v \<Longrightarrow> v < 2 ^ 32 \<Longrightarrow> length (as_bytes v) = 4 \<and> decode (as_bytes v) = Inr v"
  by (simp add: decode_as_bytes take_bit_int_eq_self) (simp add: as_bytes_def)

theorem as_bytes_decode_roundtrip_witness:
  "(0::int) \<le> 305419896 \<and> (305419896::int) < 2 ^ 32 \<and> as_bytes 305419896 = [120, 86, 52, 18]
   \<and> length (as_bytes 305419896) = 4 \<and> decode (as_bytes 305419896) = Inr 305419896"
  using as_bytes_decode_roundtrip [of 305419896] by (simp add: as_bytes_def)

subsection \<open>Bitwise complement\<close>

lemma xor_low_32_bits: "bit ((v::int) XOR 0xffffffff) n = (bit v n \<noteq> (n < 32))"
proof -
  have eq: "(0xffffffff::int) = mask 32" by (simp add: mask_eq_exp_minus_1)
  show ?thesis unfolding eq by (simp only: bit_xor_iff bit_mask_iff) auto
qed

lemma xor_low_32_twice: "((v::int) XOR 0xffffffff) XOR 0xffffffff = v"
  by (simp add: xor.assoc)

lemma tbfrun_loop_step:
  "tbfrun_step s = Inr s1 \<Longrightarrow> tbfrun_loop s = tbfrun_loop s1"
  by (subst tbfrun_loop.simps) simp

lemma tbfrun_loop_raise:
  "tbfrun_step s = Inl e \<Longrightarrow> tbfrun_loop s = Some (e, s)"
  by (subst tbfrun_loop.simps) simp

lemma tbfcompile_loop_step:
  "program_counter s < length (program s) \<Longrightarrow> tbfcompile_step s = Inr s1 \<Longrightarrow>
     tbfcompile s = tbfcompile s1"
  by (subst tbfcompile.simps) simp

lemma tbfrun_step_tilde:
  assumes "program_counter s < length (program s)" "program s ! program_counter s = CHR ''~''"
    and "run_time_dispatch s CHR ''~'' = Some BitwiseNot" "stack s = v # rest"
  shows "tbfrun_step s =
           Inr (s\<lparr>program_counter := program_counter s + 1, stack := (v XOR 0xffffffff) # rest\<rparr>)"
  using assms by (simp add: tbfrun_step_def Let_def eat_byte_def bitwise_not_def)

text \<open>
  C5. \<^verbatim>\<open>~\<close> is bound to \<^verbatim>\<open>bitwise_not\<close> in the run-time table. One iteration of the run
  loop at a \<^verbatim>\<open>~\<close> with \<open>v\<close> on top of the stack replaces it with \<open>v XOR 0xFFFFFFFF\<close> and
  moves the counter by one: bit \<open>n\<close> of the result differs from bit \<open>n\<close> of \<open>v\<close> exactly
  when \<open>n < 32\<close>, so the bits above bit 31 are kept. Two \<^verbatim>\<open>~\<close> in a row leave the run
  loop in the state it had, two bytes further on.
\<close>

theorem tilde_flips_low_32_bits:
  "initial_run_time_dispatch CHR ''~'' = Some BitwiseNot
   \<and> (program_counter s < length (program s) \<longrightarrow> program s ! program_counter s = CHR ''~'' \<longrightarrow>
        run_time_dispatch s CHR ''~'' = Some BitwiseNot \<longrightarrow> stack s = v # rest \<longrightarrow>
        tbfrun_step s =
          Inr (s\<lparr>program_counter := program_counter s + 1, stack := (v XOR 0xffffffff) # rest\<rparr>)
        \<and> tbfrun_loop s =
            tbfrun_loop (s\<lparr>program_counter := program_counter s + 1,
                           stack := (v XOR 0xffffffff) # rest\<rparr>))
   \<and> bit (v XOR 0xffffffff) n = (bit v n \<noteq> (n < 32))
   \<and> (program_counter s + 1 < length (program s) \<longrightarrow> program s ! program_counter s = CHR ''~'' \<longrightarrow>
        program s ! (program_counter s + 1) = CHR ''~'' \<longrightarrow>
        run_time_dispatch s CHR ''~'' = Some BitwiseNot \<longrightarrow> stack s = v # rest \<longrightarrow>
        tbfrun_loop s = tbfrun_loop (s\<lparr>program_counter := program_counter s + 2\<rparr>))
   \<and> call BitwiseNot (s\<lparr>stack := v # rest\<rparr>) = Inr (s\<lparr>stack := (v XOR 0xffffffff) # rest\<rparr>)
   \<and> call BitwiseNot (s\<lparr>stack := (v XOR 0xffffffff) # rest\<rparr>) = Inr (s\<lparr>stack := v # rest\<rparr>)"
proof (intro conjI impI)
  show "initial_run_time_dispatch CHR ''~'' = Some BitwiseNot"
    by (simp add: initial_run_time_dispatch_def)
next
  assume a: "program_counter s < length (program s)" "program s ! program_counter s = CHR ''~''"
    "run_time_dispatch s CHR ''~'' = Some BitwiseNot" "stack s = v # rest"
  then show st: "tbfrun_step s =
          Inr (s\<lparr>program_counter := program_counter s + 1, stack := (v XOR 0xffffffff) # rest\<rparr>)"
    by (rule tbfrun_step_tilde)
  then show "tbfrun_loop s =
            tbfrun_loop (s\<lparr>program_counter := program_counter s + 1,
                           stack := (v XOR 0xffffffff) # rest\<rparr>)"
    by (rule tbfrun_loop_step)
next
  show "bit (v XOR 0xffffffff) n = (bit v n \<noteq> (n < 32))"
    by (rule xor_low_32_bits)
next
  assume a: "program_counter s + 1 < length (program s)" "program s ! program_counter s = CHR ''~''"
    "program s ! (program_counter s + 1) = CHR ''~''"
    "run_time_dispatch s CHR ''~'' = Some BitwiseNot" "stack s = v # rest"
  let ?s1 = "s\<lparr>program_counter := program_counter s + 1, stack := (v XOR 0xffffffff) # rest\<rparr>"
  from a have 1: "tbfrun_step s = Inr ?s1"
    by (intro tbfrun_step_tilde) simp_all
  from a have 2: "tbfrun_step ?s1 =
      Inr (?s1\<lparr>program_counter := program_counter ?s1 + 1,
               stack := ((v XOR 0xffffffff) XOR 0xffffffff) # rest\<rparr>)"
    by (intro tbfrun_step_tilde) simp_all
  have "?s1\<lparr>program_counter := program_counter ?s1 + 1,
               stack := ((v XOR 0xffffffff) XOR 0xffffffff) # rest\<rparr>
        = s\<lparr>program_counter := program_counter s + 2\<rparr>"
    using a(5) by (simp add: xor_low_32_twice)
  with 2 have "tbfrun_step ?s1 = Inr (s\<lparr>program_counter := program_counter s + 2\<rparr>)"
    by simp
  with 1 show "tbfrun_loop s = tbfrun_loop (s\<lparr>program_counter := program_counter s + 2\<rparr>)"
    by (simp add: tbfrun_loop_step)
next
  show "call BitwiseNot (s\<lparr>stack := v # rest\<rparr>) = Inr (s\<lparr>stack := (v XOR 0xffffffff) # rest\<rparr>)"
    by (simp add: bitwise_not_def)
next
  show "call BitwiseNot (s\<lparr>stack := (v XOR 0xffffffff) # rest\<rparr>) = Inr (s\<lparr>stack := v # rest\<rparr>)"
    by (simp add: bitwise_not_def xor_low_32_twice)
qed

theorem tilde_flips_low_32_bits_witness:
  "tbfrun_step (initial_state ''~~Q'' [] \<lparr>stack := [5]\<rparr>)
     = Inr (initial_state ''~~Q'' [] \<lparr>program_counter := 1, stack := [4294967290]\<rparr>)
   \<and> tbfrun_loop (initial_state ''~~Q'' [] \<lparr>stack := [5]\<rparr>)
     = tbfrun_loop (initial_state ''~~Q'' [] \<lparr>program_counter := 2, stack := [5]\<rparr>)
   \<and> map_option (map_prod id stack) (main ''^5~Q'' []) = Some (SystemExit, [4294967290])
   \<and> map_option (map_prod id stack) (main ''^5~~Q'' []) = Some (SystemExit, [5])"
proof -
  let ?s = "initial_state ''~~Q'' [] \<lparr>stack := [5]\<rparr>"
  have h: "program_counter ?s + 1 < length (program ?s)" "program_counter ?s < length (program ?s)"
    "program ?s ! program_counter ?s = CHR ''~''" "program ?s ! (program_counter ?s + 1) = CHR ''~''"
    "run_time_dispatch ?s CHR ''~'' = Some BitwiseNot" "stack ?s = 5 # []"
    by (simp_all add: initial_state_def initial_run_time_dispatch_def)
  from tilde_flips_low_32_bits [of ?s 5 "[]" 0] h
  have a: "tbfrun_step ?s =
      Inr (?s\<lparr>program_counter := program_counter ?s + 1, stack := (5 XOR 0xffffffff) # []\<rparr>)"
    and b: "tbfrun_loop ?s = tbfrun_loop (?s\<lparr>program_counter := program_counter ?s + 2\<rparr>)"
    by blast+
  from a have 1: "tbfrun_step ?s
     = Inr (initial_state ''~~Q'' [] \<lparr>program_counter := 1, stack := [4294967290]\<rparr>)"
    by (simp add: initial_state_def)
  from b have 2: "tbfrun_loop ?s
     = tbfrun_loop (initial_state ''~~Q'' [] \<lparr>program_counter := 2, stack := [5]\<rparr>)"
    by (simp add: initial_state_def numeral_2_eq_2)
  have 3: "map_option (map_prod id stack) (main ''^5~Q'' []) = Some (SystemExit, [4294967290])"
    by code_simp
  have 4: "map_option (map_prod id stack) (main ''^5~~Q'' []) = Some (SystemExit, [5])"
    by code_simp
  from 1 2 3 4 show ?thesis by blast
qed

subsection \<open>Comments\<close>

lemma eat_comment_no_close:
  "CHR '')'' \<notin> set (drop (program_counter s) (program s)) \<Longrightarrow> eat_comment s = Inl IndexError"
proof (induction s rule: eat_comment.induct)
  case (1 s)
  show ?case
  proof (cases "program_counter s < length (program s)")
    case True
    then have split: "drop (program_counter s) (program s)
        = program s ! program_counter s # drop (Suc (program_counter s)) (program s)"
      by (simp add: Cons_nth_drop_Suc)
    with "1.prems" have ne: "program s ! program_counter s \<noteq> CHR '')''"
      and rest: "CHR '')'' \<notin> set (drop (program_counter (eat_byte s)) (program (eat_byte s)))"
      by (auto simp: eat_byte_def)
    from "1.IH" [OF True ne rest] True ne show ?thesis
      by (subst eat_comment.simps) simp
  next
    case False
    then show ?thesis by (subst eat_comment.simps) simp
  qed
qed

text \<open>
  C10. When no \<^verbatim>\<open>)\<close> occurs in the program text from the cursor on, the comment skip
  raises \<^verbatim>\<open>IndexError\<close> (it reads past the end of the text), and so does the
  \<^verbatim>\<open>(\<close> entry of either dispatch table; it never returns.
\<close>

theorem eat_comment_unterminated:
  "CHR '')'' \<notin> set (drop (program_counter s) (program s)) \<Longrightarrow>
     eat_comment s = Inl IndexError
     \<and> compile_time_dispatch CHR ''(''  = Some CEatComment
     \<and> compile_call CEatComment s = Inl IndexError
     \<and> initial_run_time_dispatch CHR ''('' = Some EatComment
     \<and> call EatComment s = Inl IndexError"
  by (simp add: eat_comment_no_close compile_time_dispatch_def initial_run_time_dispatch_def)

theorem eat_comment_unterminated_witness:
  "CHR '')'' \<notin> set (drop (program_counter (initial_state ''( abc'' [] \<lparr>program_counter := 1\<rparr>))
                       (program (initial_state ''( abc'' [] \<lparr>program_counter := 1\<rparr>)))
   \<and> eat_comment (initial_state ''( abc'' [] \<lparr>program_counter := 1\<rparr>) = Inl IndexError"
  using eat_comment_unterminated [of "initial_state ''( abc'' [] \<lparr>program_counter := 1\<rparr>"]
  by (simp add: initial_state_def)

subsection \<open>The scanner loops\<close>

lemma eat_comment_Inr:
  "eat_comment s = Inr s1 \<Longrightarrow>
     \<exists>n. s1 = s\<lparr>program_counter := n\<rparr>
       \<and> program_counter s < n \<and> n \<le> length (program s)"
proof (induction s rule: eat_comment.induct)
  case (1 s)
  from "1.prems" have lt: "program_counter s < length (program s)"
    by (subst (asm) eat_comment.simps) (simp split: if_splits)
  show ?case
  proof (cases "program s ! program_counter s \<noteq> CHR '')''")
    case True
    with "1.prems" lt have "eat_comment (eat_byte s) = Inr s1"
      by (subst (asm) eat_comment.simps) simp
    from "1.IH" [OF lt True this] show ?thesis
      by (auto simp: eat_byte_def)
  next
    case False
    with "1.prems" lt have "s1 = eat_byte s"
      by (subst (asm) eat_comment.simps) simp
    with lt show ?thesis by (auto simp: eat_byte_def)
  qed
qed

lemma advance_past_whitespace_Inr:
  "advance_past_whitespace s = Inr s1 \<Longrightarrow>
     \<exists>n. s1 = s\<lparr>program_counter := n\<rparr>
       \<and> program_counter s \<le> n \<and> n < length (program s)"
proof (induction s rule: advance_past_whitespace.induct)
  case (1 s)
  from "1.prems" have lt: "program_counter s < length (program s)"
    by (subst (asm) advance_past_whitespace.simps) (simp split: if_splits)
  show ?case
  proof (cases "program s ! program_counter s \<in> set '' \<newline>''")
    case True
    with "1.prems" lt have "advance_past_whitespace (eat_byte s) = Inr s1"
      by (subst (asm) advance_past_whitespace.simps) simp
    from "1.IH" [OF lt True this] show ?thesis
      by (auto simp: eat_byte_def)
  next
    case False
    with "1.prems" lt have "s1 = s"
      by (subst (asm) advance_past_whitespace.simps) simp
    with lt have "s1 = s\<lparr>program_counter := program_counter s\<rparr>" by simp
    with lt show ?thesis by blast
  qed
qed

lemma eat_digits_Inr:
  "eat_digits s = Inr s1 \<Longrightarrow>
     \<exists>n. s1 = s\<lparr>program_counter := n\<rparr>
       \<and> program_counter s \<le> n \<and> n < length (program s)"
proof (induction s rule: eat_digits.induct)
  case (1 s)
  from "1.prems" have lt: "program_counter s < length (program s)"
    by (subst (asm) eat_digits.simps) (simp split: if_splits)
  show ?case
  proof (cases "program s ! program_counter s \<in> set ''0123456789''")
    case True
    with "1.prems" lt have "eat_digits (eat_byte s) = Inr s1"
      by (subst (asm) eat_digits.simps) simp
    from "1.IH" [OF lt True this] show ?thesis
      by (auto simp: eat_byte_def)
  next
    case False
    with "1.prems" lt have "s1 = s"
      by (subst (asm) eat_digits.simps) simp
    with lt have "s1 = s\<lparr>program_counter := program_counter s\<rparr>" by simp
    with lt show ?thesis by blast
  qed
qed

lemma read_number_Inr:
  "read_number s = Inr (n, s1) \<Longrightarrow>
     \<exists>n. s1 = s\<lparr>program_counter := n\<rparr>
       \<and> program_counter s \<le> n \<and> n < length (program s)"
  by (auto simp: read_number_def Let_def split: sum.splits dest: eat_digits_Inr)

lemma compile_call_frame:
  assumes "compile_call a s = Inr s1" "program_counter s \<le> length (program s)"
  shows "compile_frame s s1"
proof (cases a)
  case CEatComment
  with assms show ?thesis
    by (auto simp: compile_frame_def dest!: eat_comment_Inr)
next
  case CDataspaceLabel
  with assms show ?thesis
    by (auto simp: compile_frame_def dataspace_label_def Let_def eat_byte_def 
        split: sum.splits if_splits dest!: advance_past_whitespace_Inr)
next
  case CDefineFunction
  with assms show ?thesis
    by (auto simp: compile_frame_def define_function_def Let_def eat_byte_def 
        split: sum.splits if_splits dest!: advance_past_whitespace_Inr)
next
  case CLiteralByte
  with assms show ?thesis
    by (auto simp: compile_frame_def literal_byte_def
        split: sum.splits dest!: advance_past_whitespace_Inr read_number_Inr)
next
  case CLiteralWord
  with assms show ?thesis
    by (auto simp: compile_frame_def literal_word_def
        split: sum.splits dest!: advance_past_whitespace_Inr read_number_Inr)
next
  case CSetStartAddress
  with assms show ?thesis by (auto simp: compile_frame_def set_start_address_def)
next
  case CNop
  with assms show ?thesis by (auto simp: compile_frame_def)
qed


lemma compile_time_dispatch_Some:
  "compile_time_dispatch c = Some a \<Longrightarrow>
     (a = CSetStartAddress) = (c = CHR ''^'')"
  by (auto simp: compile_time_dispatch_def split: if_splits)

lemma compile_call_start_address:
  "compile_call a s = Inr s1 \<Longrightarrow> a \<noteq> CSetStartAddress \<Longrightarrow> start_address s1 = start_address s"
  by (cases a)
     (auto simp: dataspace_label_def define_function_def literal_byte_def literal_word_def
        Let_def eat_byte_def
        split: sum.splits if_splits
        dest!: eat_comment_Inr advance_past_whitespace_Inr read_number_Inr)

lemma tbfcompile_step_frame:
  assumes "program_counter s < length (program s)" "tbfcompile_step s = Inr s1"
  shows "compile_frame (eat_byte s) s1"
proof (cases "compile_time_dispatch (program s ! program_counter s)")
  case None
  with assms have "s1 = eat_byte s"
    by (simp add: tbfcompile_step_def Let_def split: if_splits)
  with assms show ?thesis by (simp add: compile_frame_def eat_byte_def)
next
  case (Some a)
  with assms have "compile_call a (eat_byte s) = Inr s1"
    by (simp add: tbfcompile_step_def Let_def)
  moreover from assms have "program_counter (eat_byte s) \<le> length (program (eat_byte s))"
    by (simp add: eat_byte_def)
  ultimately show ?thesis by (rule compile_call_frame)
qed

lemma tbfcompile_step_progress:
  assumes "program_counter s < length (program s)" "tbfcompile_step s = Inr s1"
  shows "program_counter s < program_counter s1 \<and> program s1 = program s
         \<and> program_counter s1 \<le> length (program s)"
  using tbfcompile_step_frame [OF assms] by (simp add: compile_frame_def eat_byte_def)

lemma tbfcompile_step_start_address:
  assumes "program_counter s < length (program s)" "tbfcompile_step s = Inr s1"
    and "program s ! program_counter s \<noteq> CHR ''^''"
  shows "start_address s1 = start_address s"
proof (cases "compile_time_dispatch (program s ! program_counter s)")
  case None
  with assms have "s1 = eat_byte s"
    by (simp add: tbfcompile_step_def Let_def split: if_splits)
  then show ?thesis by (simp add: eat_byte_def)
next
  case (Some a)
  with assms have call: "compile_call a (eat_byte s) = Inr s1"
    by (simp add: tbfcompile_step_def Let_def)
  from Some assms(3) have "a \<noteq> CSetStartAddress"
    using compile_time_dispatch_Some by blast
  with call have "start_address s1 = start_address (eat_byte s)"
    by (rule compile_call_start_address)
  then show ?thesis by (simp add: eat_byte_def)
qed

lemma tbfcompile_total: "\<exists>r. tbfcompile s = Some r"
proof (induction "length (program s) - program_counter s" arbitrary: s rule: less_induct)
  case less
  show ?case
  proof (cases "program_counter s < length (program s)")
    case False
    then show ?thesis by (subst tbfcompile.simps) simp
  next
    case True
    show ?thesis
    proof (cases "tbfcompile_step s")
      case (Inl e)
      with True show ?thesis by (subst tbfcompile.simps) simp
    next
      case (Inr s1)
      from tbfcompile_step_progress [OF True Inr] True
      have "length (program s1) - program_counter s1 < length (program s) - program_counter s"
        by (simp only:) arith
      from less [OF this] obtain r where "tbfcompile s1 = Some r" ..
      with True Inr show ?thesis by (subst tbfcompile.simps) simp
    qed
  qed
qed

lemma tbfcompile_returns_induct [consumes 1, case_names stop step]:
  assumes "tbfcompile s = Some (Inr s')"
    and "\<And>s. \<not> program_counter s < length (program s) \<Longrightarrow> P s s"
    and "\<And>s s1 s'. program_counter s < length (program s) \<Longrightarrow> tbfcompile_step s = Inr s1 \<Longrightarrow>
            tbfcompile s1 = Some (Inr s') \<Longrightarrow> P s1 s' \<Longrightarrow> P s s'"
  shows "P s s'"
  using assms(1)
proof (induction "length (program s) - program_counter s" arbitrary: s rule: less_induct)
  case less
  show ?case
  proof (cases "program_counter s < length (program s)")
    case False
    with less.prems have "s' = s" by (subst (asm) tbfcompile.simps) simp
    with False assms(2) show ?thesis by simp
  next
    case True
    with less.prems obtain s1 where step: "tbfcompile_step s = Inr s1"
      and rest: "tbfcompile s1 = Some (Inr s')"
      by (subst (asm) tbfcompile.simps) (auto split: sum.splits)
    from tbfcompile_step_progress [OF True step] True
    have "length (program s1) - program_counter s1 < length (program s) - program_counter s"
      by (simp only:) arith
    from less.hyps [OF this rest] have "P s1 s'" .
    with True step rest show ?thesis by (rule assms(3))
  qed
qed

lemma tbfcompile_end:
  "tbfcompile s = Some (Inr s') \<Longrightarrow> length (program s') \<le> program_counter s'"
  by (induction rule: tbfcompile_returns_induct) auto

lemma tbfcompile_memory:
  "tbfcompile s = Some (Inr s') \<Longrightarrow> \<exists>xs. memory s' = memory s @ xs"
proof (induction rule: tbfcompile_returns_induct)
  case (stop s)
  then show ?case by simp
next
  case (step s s1 s')
  from tbfcompile_step_frame [OF step(1,2)] obtain xs where "memory s1 = memory s @ xs"
    by (auto simp: compile_frame_def eat_byte_def)
  with step.IH show ?case by auto
qed

lemma tbfcompile_start_address:
  "tbfcompile s = Some (Inr s') \<Longrightarrow> CHR ''^'' \<notin> set (drop (program_counter s) (program s)) \<Longrightarrow>
     start_address s' = start_address s"
proof (induction rule: tbfcompile_returns_induct)
  case (stop s)
  then show ?case by simp
next
  case (step s s1 s')
  from step(1) have "program s ! program_counter s \<in> set (drop (program_counter s) (program s))"
    by (metis Cons_nth_drop_Suc list.set_intros(1))
  with step.prems have ne: "program s ! program_counter s \<noteq> CHR ''^''" by auto
  from tbfcompile_step_progress [OF step(1,2)]
  have "set (drop (program_counter s1) (program s1)) \<subseteq> set (drop (program_counter s) (program s))"
    by (simp add: set_drop_subset_set_drop)
  with step.prems have "CHR ''^'' \<notin> set (drop (program_counter s1) (program s1))" by auto
  with step.IH tbfcompile_step_start_address [OF step(1,2) ne] show ?case by simp
qed

lemma not_isl_returned:
  "map_option isl r = Some False \<Longrightarrow> \<exists>s. r = Some (Inr s)"
proof (cases r)
  case None
  moreover assume "map_option isl r = Some False"
  ultimately show ?thesis by simp
next
  case (Some a)
  moreover assume "map_option isl r = Some False"
  ultimately show ?thesis by (cases a) simp_all
qed

lemma not_isl_Inr: "\<not> isl r \<Longrightarrow> \<exists>s. r = Inr s"
  by (cases r) simp_all

subsection \<open>Termination of the compile pass\<close>

text \<open>
  C9. \<^verbatim>\<open>tbfcompile\<close> ends on every state: it returns or it raises. Each iteration that
  returns has moved the program counter forward and left the program text alone, and when
  the pass returns the counter has reached the end of the text.
\<close>

theorem tbfcompile_terminates:
  "(\<exists>r. tbfcompile s = Some r)
   \<and> (\<forall>s1. program_counter s < length (program s) \<longrightarrow> tbfcompile_step s = Inr s1 \<longrightarrow>
          program_counter s < program_counter s1 \<and> program s1 = program s)
   \<and> (\<forall>s'. tbfcompile s = Some (Inr s') \<longrightarrow> length (program s') \<le> program_counter s')"
  using tbfcompile_total [of s] tbfcompile_step_progress [of s] tbfcompile_end [of s]
  by blast

theorem tbfcompile_terminates_witness:
  "program_counter (initial_state ''b 65 '' []) < length (program (initial_state ''b 65 '' []))
   \<and> (\<exists>s1. tbfcompile_step (initial_state ''b 65 '' []) = Inr s1
           \<and> program_counter (initial_state ''b 65 '' []) < program_counter s1)
   \<and> (\<exists>r. tbfcompile (initial_state ''b 65 '' []) = Some r)"
proof -
  let ?s = "initial_state ''b 65 '' []"
  have lt: "program_counter ?s < length (program ?s)"
    by (simp add: initial_state_def)
  have "\<not> isl (tbfcompile_step ?s)"
    by code_simp
  then obtain s1 where "tbfcompile_step ?s = Inr s1"
    by (cases "tbfcompile_step ?s") auto
  with lt tbfcompile_terminates [of ?s] show ?thesis by blast
qed

subsection \<open>The entry offset\<close>

lemma tbfcompile_step_marker:
  assumes "program_counter s < length (program s)" "program s ! program_counter s = CHR ''^''"
  shows "tbfcompile_step s =
           Inr (s\<lparr>program_counter := program_counter s + 1,
                  start_address := Some (program_counter s + 1)\<rparr>)"
  using assms
  by (simp add: tbfcompile_step_def compile_time_dispatch_def Let_def set_start_address_def
        eat_byte_def)

lemma tbfcompile_states_progress:
  "tbfcompile_states n s = Some t \<Longrightarrow>
     program t = program s \<and> program_counter s + n \<le> program_counter t"
proof (induction n arbitrary: s)
  case 0
  then show ?case by simp
next
  case (Suc n)
  from Suc.prems obtain s1 where lt: "program_counter s < length (program s)"
    and st: "tbfcompile_step s = Inr s1" and rest: "tbfcompile_states n s1 = Some t"
    by (auto split: if_splits sum.splits)
  from tbfcompile_step_progress [OF lt st] Suc.IH [OF rest] show ?case by simp
qed

lemma tbfcompile_states_pass:
  "tbfcompile_states n s = Some t \<Longrightarrow> tbfcompile t = tbfcompile s"
proof (induction n arbitrary: s)
  case 0
  then show ?case by simp
next
  case (Suc n)
  from Suc.prems obtain s1 where lt: "program_counter s < length (program s)"
    and st: "tbfcompile_step s = Inr s1" and rest: "tbfcompile_states n s1 = Some t"
    by (auto split: if_splits sum.splits)
  from tbfcompile_loop_step [OF lt st] Suc.IH [OF rest] show ?case by simp
qed

lemma tbfcompile_states_add:
  "tbfcompile_states n s = Some t \<Longrightarrow> tbfcompile_states (n + m) s = tbfcompile_states m t"
proof (induction n arbitrary: s)
  case 0
  then show ?case by simp
next
  case (Suc n)
  from Suc.prems obtain s1 where lt: "program_counter s < length (program s)"
    and st: "tbfcompile_step s = Inr s1" and rest: "tbfcompile_states n s1 = Some t"
    by (auto split: if_splits sum.splits)
  from Suc.IH [OF rest] lt st show ?case by simp
qed

lemma marker_iteration_bound:
  "marker_iteration n s \<Longrightarrow> program_counter s + n < length (program s)"
  by (auto simp: marker_iteration_def split: option.splits dest!: tbfcompile_states_progress)

lemma marker_iteration_Suc:
  "program_counter s < length (program s) \<Longrightarrow> tbfcompile_step s = Inr s1 \<Longrightarrow>
     marker_iteration (Suc n) s = marker_iteration n s1"
  by (simp add: marker_iteration_def)

lemma marker_iteration_shift:
  "tbfcompile_states n s = Some t \<Longrightarrow> marker_iteration (n + m) s = marker_iteration m t"
  by (simp add: marker_iteration_def tbfcompile_states_add)

lemma tbfcompile_no_marker:
  "tbfcompile s = Some (Inr s') \<Longrightarrow> \<forall>n. \<not> marker_iteration n s \<Longrightarrow> start_address s' = start_address s"
proof (induction rule: tbfcompile_returns_induct)
  case (stop s)
  then show ?case by simp
next
  case (step s s1 s')
  from step.prems have "\<not> marker_iteration 0 s" by blast
  with step(1) have ne: "program s ! program_counter s \<noteq> CHR ''^''"
    by (simp add: marker_iteration_def)
  from step.prems have "\<forall>n. \<not> marker_iteration n s1"
    using marker_iteration_Suc [OF step(1,2)] by blast
  with step.IH tbfcompile_step_start_address [OF step(1,2) ne] show ?case by simp
qed

lemma tbfcompile_program:
  "tbfcompile s = Some (Inr s') \<Longrightarrow> program s' = program s"
proof (induction rule: tbfcompile_returns_induct)
  case (stop s)
  then show ?case by simp
next
  case (step s s1 s')
  with tbfcompile_step_progress [OF step(1,2)] show ?case by simp
qed

lemma tbfcompile_last_marker_iteration:
  assumes "tbfcompile s = Some (Inr s')" "tbfcompile_states n s = Some t"
    and "marker_iteration n s" "\<forall>m. n < m \<longrightarrow> \<not> marker_iteration m s"
  shows "start_address s' = Some (program_counter t + 1)"
proof -
  let ?t1 = "t\<lparr>program_counter := program_counter t + 1,
                start_address := Some (program_counter t + 1)\<rparr>"
  from assms(2,3) have lt: "program_counter t < length (program t)"
    and at: "program t ! program_counter t = CHR ''^''"
    by (simp_all add: marker_iteration_def)
  from tbfcompile_step_marker [OF lt at] have st: "tbfcompile_step t = Inr ?t1" .
  from tbfcompile_states_pass [OF assms(2)] assms(1) have "tbfcompile t = Some (Inr s')"
    by simp
  with tbfcompile_loop_step [OF lt st] have pass: "tbfcompile ?t1 = Some (Inr s')"
    by simp
  have "\<not> marker_iteration m ?t1" for m
  proof -
    have "marker_iteration (n + Suc m) s = marker_iteration (Suc m) t"
      using assms(2) by (rule marker_iteration_shift)
    also have "\<dots> = marker_iteration m ?t1"
      using lt st by (rule marker_iteration_Suc)
    finally show ?thesis using assms(4) by simp
  qed
  then have "\<forall>m. \<not> marker_iteration m ?t1" by blast
  from tbfcompile_no_marker [OF pass this] show ?thesis by simp
qed

text \<open>
  C7. A marker is an iteration of the compile pass that executes the \<^verbatim>\<open>^\<close> entry. For
  the pass over any program text from the initial state, if it returns: when no iteration
  is a marker, \<^verbatim>\<open>start_address\<close> is still unset and \<^verbatim>\<open>tbfrun\<close> raises its assertion in
  the state it was entered with; when there are markers, \<^verbatim>\<open>start_address\<close> is the cursor
  the last of them recorded (the offset just past its \<^verbatim>\<open>^\<close>), whatever earlier ones
  recorded, and \<^verbatim>\<open>tbfrun\<close> is its loop started at that cursor, whose first iteration
  dispatches the byte found there. Every marker is among the first \<open>length text\<close>
  iterations.
\<close>

theorem entry_offset_of_last_marker:
  assumes "tbfcompile (initial_state text input) = Some (Inr s')"
  shows "(\<forall>n. marker_iteration n (initial_state text input) \<longrightarrow> n < length text)
     \<and> ((\<forall>n. \<not> marker_iteration n (initial_state text input)) \<longrightarrow>
          start_address s' = None \<and> tbfrun s' = Some (AssertionError None, s'))
     \<and> (\<forall>n t. tbfcompile_states n (initial_state text input) = Some t \<longrightarrow>
            marker_iteration n (initial_state text input) \<longrightarrow>
            (\<forall>m. n < m \<longrightarrow> \<not> marker_iteration m (initial_state text input)) \<longrightarrow>
            text ! program_counter t = CHR ''^''
            \<and> start_address s' = Some (program_counter t + 1)
            \<and> tbfrun s' = tbfrun_loop (s'\<lparr>program_counter := program_counter t + 1\<rparr>)
            \<and> tbfrun s' =
                (case tbfrun_step (s'\<lparr>program_counter := program_counter t + 1\<rparr>) of
                   Inl e \<Rightarrow> Some (e, s'\<lparr>program_counter := program_counter t + 1\<rparr>)
                 | Inr s1 \<Rightarrow> tbfrun_loop s1)
            \<and> (program_counter t + 1 < length text \<longrightarrow>
                 tbfrun_step (s'\<lparr>program_counter := program_counter t + 1\<rparr>) =
                   (case run_time_dispatch s' (text ! (program_counter t + 1)) of
                      None \<Rightarrow> Inl (KeyError (text ! (program_counter t + 1)))
                    | Some a \<Rightarrow> call a (s'\<lparr>program_counter := program_counter t + 2\<rparr>))))
     \<and> (\<forall>s. program_counter s < length (program s) \<longrightarrow>
            program s ! program_counter s = CHR ''^'' \<longrightarrow>
            tbfcompile_step s =
              Inr (s\<lparr>program_counter := program_counter s + 1,
                     start_address := Some (program_counter s + 1)\<rparr>))"
proof (intro conjI allI impI)
  fix n assume "marker_iteration n (initial_state text input)"
  from marker_iteration_bound [OF this] show "n < length text"
    by (simp add: initial_state_def)
next
  assume "\<forall>n. \<not> marker_iteration n (initial_state text input)"
  from tbfcompile_no_marker [OF assms this] show none: "start_address s' = None"
    by (simp add: initial_state_def)
  then show "tbfrun s' = Some (AssertionError None, s')"
    by (simp add: tbfrun_def)
next
  fix n t
  assume st: "tbfcompile_states n (initial_state text input) = Some t"
    and mk: "marker_iteration n (initial_state text input)"
    and last: "\<forall>m. n < m \<longrightarrow> \<not> marker_iteration m (initial_state text input)"
  from tbfcompile_states_progress [OF st] have pt: "program t = text"
    by (simp add: initial_state_def)
  from st mk pt show "text ! program_counter t = CHR ''^''"
    by (simp add: marker_iteration_def)
  from tbfcompile_last_marker_iteration [OF assms st mk last]
  show sa: "start_address s' = Some (program_counter t + 1)" .
  then show run: "tbfrun s' = tbfrun_loop (s'\<lparr>program_counter := program_counter t + 1\<rparr>)"
    by (simp add: tbfrun_def)
  then show "tbfrun s' =
                (case tbfrun_step (s'\<lparr>program_counter := program_counter t + 1\<rparr>) of
                   Inl e \<Rightarrow> Some (e, s'\<lparr>program_counter := program_counter t + 1\<rparr>)
                 | Inr s1 \<Rightarrow> tbfrun_loop s1)"
    by (subst (asm) tbfrun_loop.simps) simp
  assume "program_counter t + 1 < length text"
  moreover from tbfcompile_program [OF assms] have "program s' = text"
    by (simp add: initial_state_def)
  ultimately show "tbfrun_step (s'\<lparr>program_counter := program_counter t + 1\<rparr>) =
                   (case run_time_dispatch s' (text ! (program_counter t + 1)) of
                      None \<Rightarrow> Inl (KeyError (text ! (program_counter t + 1)))
                    | Some a \<Rightarrow> call a (s'\<lparr>program_counter := program_counter t + 2\<rparr>))"
    by (simp add: tbfrun_step_def Let_def eat_byte_def split: option.splits)
next
  fix s :: tbf_state
  assume "program_counter s < length (program s)" "program s ! program_counter s = CHR ''^''"
  then show "tbfcompile_step s =
              Inr (s\<lparr>program_counter := program_counter s + 1,
                     start_address := Some (program_counter s + 1)\<rparr>)"
    by (rule tbfcompile_step_marker)
qed

lemma no_later_marker_check:
  assumes "list_all (\<lambda>m. \<not> marker_iteration m s) [k..<length (program s)]"
  shows "\<forall>m. k \<le> m \<longrightarrow> \<not> marker_iteration m s"
proof (intro allI impI notI)
  fix m assume "k \<le> m" "marker_iteration m s"
  from marker_iteration_bound [OF this(2)] have "m < length (program s)" by simp
  with \<open>k \<le> m\<close> have "m \<in> set [k..<length (program s)]" by simp
  with assms have "\<not> marker_iteration m s" by (simp add: list_all_iff)
  with \<open>marker_iteration m s\<close> show False by simp
qed

theorem entry_offset_of_last_marker_witness:
  "(\<exists>s'. tbfcompile (initial_state ''^Qv^'' []) = Some (Inr s') \<and> start_address s' = Some 1)
   \<and> (\<exists>s'. tbfcompile (initial_state ''^Q(^)'' []) = Some (Inr s') \<and> start_address s' = Some 1)
   \<and> (\<exists>s'. tbfcompile (initial_state ''(^)Q'' []) = Some (Inr s')
           \<and> tbfrun s' = Some (AssertionError None, s'))
   \<and> (\<exists>s'. tbfcompile (initial_state ''^ ^Q'' []) = Some (Inr s') \<and> start_address s' = Some 3
           \<and> tbfrun s' = tbfrun_loop (s'\<lparr>program_counter := 3\<rparr>))
   \<and> map_option (map_prod id program_counter) (main ''^0 0W ^Q'' []) = Some (SystemExit, 7)
   \<and> map_option fst (main ''(^)Q'' []) = Some (AssertionError None)"
proof -
  let ?a = "initial_state ''^Qv^'' []"
  let ?b = "initial_state ''^Q(^)'' []"
  let ?c = "initial_state ''(^)Q'' []"
  let ?d = "initial_state ''^ ^Q'' []"
  have 1: "\<exists>s'. tbfcompile ?a = Some (Inr s') \<and> start_address s' = Some 1"
  proof -
    have "map_option isl (tbfcompile ?a) = Some False" by code_simp
    then obtain s' where c: "tbfcompile ?a = Some (Inr s')"
      using not_isl_returned by blast
    have st: "tbfcompile_states 0 ?a = Some ?a" by simp
    have mk: "marker_iteration 0 ?a" by code_simp
    have "list_all (\<lambda>m. \<not> marker_iteration m ?a) [Suc 0..<length (program ?a)]"
      by code_simp
    then have "\<forall>m. 0 < m \<longrightarrow> \<not> marker_iteration m ?a"
      using no_later_marker_check [of ?a "Suc 0"] by (simp add: Suc_le_eq)
    with entry_offset_of_last_marker [OF c] st mk
    have "start_address s' = Some (program_counter ?a + 1)" by blast
    with c show ?thesis by (simp add: initial_state_def)
  qed
  have 2: "\<exists>s'. tbfcompile ?b = Some (Inr s') \<and> start_address s' = Some 1"
  proof -
    have "map_option isl (tbfcompile ?b) = Some False" by code_simp
    then obtain s' where c: "tbfcompile ?b = Some (Inr s')"
      using not_isl_returned by blast
    have st: "tbfcompile_states 0 ?b = Some ?b" by simp
    have mk: "marker_iteration 0 ?b" by code_simp
    have "list_all (\<lambda>m. \<not> marker_iteration m ?b) [Suc 0..<length (program ?b)]"
      by code_simp
    then have "\<forall>m. 0 < m \<longrightarrow> \<not> marker_iteration m ?b"
      using no_later_marker_check [of ?b "Suc 0"] by (simp add: Suc_le_eq)
    with entry_offset_of_last_marker [OF c] st mk
    have "start_address s' = Some (program_counter ?b + 1)" by blast
    with c show ?thesis by (simp add: initial_state_def)
  qed
  have 3: "\<exists>s'. tbfcompile ?c = Some (Inr s') \<and> tbfrun s' = Some (AssertionError None, s')"
  proof -
    have "map_option isl (tbfcompile ?c) = Some False" by code_simp
    then obtain s' where c: "tbfcompile ?c = Some (Inr s')"
      using not_isl_returned by blast
    have "list_all (\<lambda>m. \<not> marker_iteration m ?c) [0..<length (program ?c)]"
      by code_simp
    then have "\<forall>m. \<not> marker_iteration m ?c"
      using no_later_marker_check [of ?c 0] by simp
    with entry_offset_of_last_marker [OF c]
    have "tbfrun s' = Some (AssertionError None, s')" by blast
    with c show ?thesis by blast
  qed
  have 4: "\<exists>s'. tbfcompile ?d = Some (Inr s') \<and> start_address s' = Some 3
           \<and> tbfrun s' = tbfrun_loop (s'\<lparr>program_counter := 3\<rparr>)"
  proof -
    have "map_option isl (tbfcompile ?d) = Some False" by code_simp
    then obtain s' where c: "tbfcompile ?d = Some (Inr s')"
      using not_isl_returned by blast
    have mk: "marker_iteration 2 ?d" by code_simp
    then obtain t where st: "tbfcompile_states 2 ?d = Some t"
      by (auto simp: marker_iteration_def split: option.splits)
    have "map_option program_counter (tbfcompile_states 2 ?d) = Some 2" by code_simp
    with st have pt: "program_counter t = 2" by simp
    have "list_all (\<lambda>m. \<not> marker_iteration m ?d) [3..<length (program ?d)]"
      by code_simp
    then have "\<forall>m. 2 < m \<longrightarrow> \<not> marker_iteration m ?d"
      using no_later_marker_check [of ?d 3] by simp
    with entry_offset_of_last_marker [OF c] st mk
    have "start_address s' = Some (program_counter t + 1)
      \<and> tbfrun s' = tbfrun_loop (s'\<lparr>program_counter := program_counter t + 1\<rparr>)"
      by blast
    with c pt show ?thesis by simp
  qed
  have 5: "map_option (map_prod id program_counter) (main ''^0 0W ^Q'' []) = Some (SystemExit, 7)"
    "map_option fst (main ''(^)Q'' []) = Some (AssertionError None)"
    by code_simp+
  from 1 2 3 4 5 show ?thesis by blast
qed

subsection \<open>Data labels\<close>

lemma advance_past_whitespace_skips:
  assumes "program s = pre @ ws @ c # post" "program_counter s = length pre"
    and "set ws \<subseteq> set '' \<newline>''" "c \<notin> set '' \<newline>''"
  shows "advance_past_whitespace s = Inr (s\<lparr>program_counter := length pre + length ws\<rparr>)"
  using assms
proof (induction ws arbitrary: pre s)
  case Nil
  then have "program_counter s < length (program s)" "program s ! program_counter s = c"
    by simp_all
  with Nil show ?case
    by (subst advance_past_whitespace.simps) simp
next
  case (Cons w ws)
  from Cons.prems have lt: "program_counter s < length (program s)"
    and at: "program s ! program_counter s = w" and w: "w \<in> set '' \<newline>''"
    by simp_all
  have "advance_past_whitespace (eat_byte s)
          = Inr (eat_byte s\<lparr>program_counter := length (pre @ [w]) + length ws\<rparr>)"
    using Cons.prems by (intro Cons.IH) (simp_all add: eat_byte_def)
  with lt at w show ?case
    by (subst advance_past_whitespace.simps) (simp add: eat_byte_def)
qed

lemma dataspace_label_registers:
  assumes "program s = pre @ ws @ name # post" "program_counter s = length pre"
    and "set ws \<subseteq> set '' \<newline>''" "name \<notin> set '' \<newline>''"
  shows "dataspace_label s =
           Inr (s\<lparr>program_counter := length pre + length ws + 1,
                  run_time_dispatch :=
                    (run_time_dispatch s)(name \<mapsto> PushDataspaceLabel (int (length (memory s))))\<rparr>)"
proof -
  from assms(1) have "program s ! (length pre + length ws) = name"
    by (simp add: nth_append)
  with advance_past_whitespace_skips [OF assms] assms(1) show ?thesis
    by (simp add: dataspace_label_def Let_def eat_byte_def)
qed

lemma tbfcompile_step_v:
  assumes "program s = pre @ CHR ''v'' # ws @ name # post" "program_counter s = length pre"
    and "set ws \<subseteq> set '' \<newline>''" "name \<notin> set '' \<newline>''"
  shows "tbfcompile_step s =
           Inr (s\<lparr>program_counter := length pre + length ws + 2,
                  run_time_dispatch :=
                    (run_time_dispatch s)(name \<mapsto> PushDataspaceLabel (int (length (memory s))))\<rparr>)"
proof -
  from assms(1,2) have at: "program s ! program_counter s = CHR ''v''"
    by simp
  have "program (eat_byte s) = (pre @ [CHR ''v'']) @ ws @ name # post"
    "program_counter (eat_byte s) = length (pre @ [CHR ''v''])"
    using assms(1,2) by (simp_all add: eat_byte_def)
  from dataspace_label_registers [OF this assms(3,4)]
  have "dataspace_label (eat_byte s) =
           Inr (s\<lparr>program_counter := length pre + length ws + 2,
                  run_time_dispatch :=
                    (run_time_dispatch s)(name \<mapsto> PushDataspaceLabel (int (length (memory s))))\<rparr>)"
    by (simp add: eat_byte_def)
  with at show ?thesis
    by (simp add: tbfcompile_step_def Let_def compile_time_dispatch_def)
qed

lemma tbfrun_step_label:
  assumes "program_counter t < length (program t)"
    and "run_time_dispatch t (program t ! program_counter t) = Some (PushDataspaceLabel n)"
  shows "tbfrun_step t = Inr (t\<lparr>program_counter := program_counter t + 1, stack := n # stack t\<rparr>)"
  using assms by (simp add: tbfrun_step_def Let_def eat_byte_def push_dataspace_label_def)

lemma call_run_time_dispatch:
  "call a s = Inr s' \<Longrightarrow> run_time_dispatch s' = run_time_dispatch s"
  by (cases a)
     (auto simp: write_out_def read_byte_def quit_def add_def bitwise_not_def fetch_def store_def
        return_from_function_def push_literal_def push_dataspace_label_def call_function_def
        split: list.splits sum.splits
        dest!: eat_comment_Inr read_number_Inr)

lemma tbfrun_step_run_time_dispatch:
  assumes "tbfrun_step s = Inr s'"
  shows "run_time_dispatch s' = run_time_dispatch s"
proof -
  from assms obtain a where "call a (eat_byte s) = Inr s'"
    by (auto simp: tbfrun_step_def Let_def split: if_splits option.splits)
  then have "run_time_dispatch s' = run_time_dispatch (eat_byte s)"
    by (rule call_run_time_dispatch)
  then show ?thesis by (simp add: eat_byte_def)
qed

lemma compile_call_run_time_dispatch:
  "compile_call a s = Inr s1 \<Longrightarrow> a \<noteq> CDataspaceLabel \<Longrightarrow> a \<noteq> CDefineFunction \<Longrightarrow>
     run_time_dispatch s1 = run_time_dispatch s"
  by (cases a)
     (auto simp: literal_byte_def literal_word_def set_start_address_def
        split: sum.splits
        dest!: eat_comment_Inr advance_past_whitespace_Inr read_number_Inr)

lemma compile_time_dispatch_defining:
  "compile_time_dispatch c = Some a \<Longrightarrow>
     (a = CDataspaceLabel) = (c = CHR ''v'') \<and> (a = CDefineFunction) = (c = CHR '':'')"
  by (auto simp: compile_time_dispatch_def split: if_splits)

lemma tbfcompile_step_run_time_dispatch:
  assumes "program_counter s < length (program s)" "tbfcompile_step s = Inr s1"
    and "program s ! program_counter s \<noteq> CHR ''v''" "program s ! program_counter s \<noteq> CHR '':''"
  shows "run_time_dispatch s1 = run_time_dispatch s"
proof (cases "compile_time_dispatch (program s ! program_counter s)")
  case None
  with assms have "s1 = eat_byte s"
    by (simp add: tbfcompile_step_def Let_def split: if_splits)
  then show ?thesis by (simp add: eat_byte_def)
next
  case (Some a)
  with assms have c: "compile_call a (eat_byte s) = Inr s1"
    by (simp add: tbfcompile_step_def Let_def)
  from compile_time_dispatch_defining [OF Some] assms(3,4)
  have "a \<noteq> CDataspaceLabel" "a \<noteq> CDefineFunction" by simp_all
  with c have "run_time_dispatch s1 = run_time_dispatch (eat_byte s)"
    by (rule compile_call_run_time_dispatch)
  then show ?thesis by (simp add: eat_byte_def)
qed

lemma compile_call_run_time_dispatch_other:
  assumes "compile_call a s = Inr s1" "d \<noteq> program s ! (program_counter s1 - 1)"
  shows "run_time_dispatch s1 d = run_time_dispatch s d"
proof (cases "a = CDataspaceLabel \<or> a = CDefineFunction")
  case False
  with assms(1) show ?thesis by (simp add: compile_call_run_time_dispatch)
next
  case True
  with assms show ?thesis
    by (auto simp: dataspace_label_def define_function_def Let_def eat_byte_def
          split: sum.splits if_splits dest!: advance_past_whitespace_Inr)
qed

lemma tbfcompile_step_run_time_dispatch_other:
  assumes "program_counter s < length (program s)" "tbfcompile_step s = Inr s1"
    and "d \<noteq> program s ! (program_counter s1 - 1)"
  shows "run_time_dispatch s1 d = run_time_dispatch s d"
proof (cases "compile_time_dispatch (program s ! program_counter s)")
  case None
  with assms have "s1 = eat_byte s"
    by (simp add: tbfcompile_step_def Let_def split: if_splits)
  then show ?thesis by (simp add: eat_byte_def)
next
  case (Some a)
  with assms have c: "compile_call a (eat_byte s) = Inr s1"
    by (simp add: tbfcompile_step_def Let_def)
  from assms(3) have "d \<noteq> program (eat_byte s) ! (program_counter s1 - 1)"
    by (simp add: eat_byte_def)
  with c have "run_time_dispatch s1 d = run_time_dispatch (eat_byte s) d"
    by (rule compile_call_run_time_dispatch_other)
  then show ?thesis by (simp add: eat_byte_def)
qed

text \<open>
  C6. \<^verbatim>\<open>v\<close> is bound to \<^verbatim>\<open>dataspace_label\<close> in the compile-time table. The iteration
  of the compile pass at a \<^verbatim>\<open>v\<close> followed by optional blanks and a name byte registers
  under that name an action holding the length \<open>memory\<close> has at that moment (0 while it is
  empty, \<open>N\<close> after \<open>N\<close> elements), and the pass goes on from there. The registration
  stays: iterations of the compile pass other than \<^verbatim>\<open>v\<close> and \<^verbatim>\<open>:\<close> leave the table
  alone, an iteration at \<^verbatim>\<open>v\<close> or \<^verbatim>\<open>:\<close> changes it at the name byte it reads only (the
  byte before the cursor it leaves), and the iterations of the run loop leave it alone. An
  iteration of the run loop at a byte bound to that action pushes that number, whatever
  \<open>memory\<close> has become.
\<close>

theorem v_label_pushes_here:
  assumes "program s = pre @ CHR ''v'' # ws @ name # post" "program_counter s = length pre"
    and "set ws \<subseteq> set '' \<newline>''" "name \<notin> set '' \<newline>''"
  shows "compile_time_dispatch CHR ''v'' = Some CDataspaceLabel
     \<and> tbfcompile_step s =
           Inr (s\<lparr>program_counter := length pre + length ws + 2,
                  run_time_dispatch :=
                    (run_time_dispatch s)(name \<mapsto> PushDataspaceLabel (int (length (memory s))))\<rparr>)
     \<and> tbfcompile s =
         tbfcompile (s\<lparr>program_counter := length pre + length ws + 2,
                  run_time_dispatch :=
                    (run_time_dispatch s)(name \<mapsto> PushDataspaceLabel (int (length (memory s))))\<rparr>)
     \<and> (\<forall>c c1. program_counter c < length (program c) \<longrightarrow> tbfcompile_step c = Inr c1 \<longrightarrow>
            program c ! program_counter c \<noteq> CHR ''v'' \<longrightarrow> program c ! program_counter c \<noteq> CHR '':'' \<longrightarrow>
            run_time_dispatch c1 = run_time_dispatch c)
     \<and> (\<forall>c c1 d. program_counter c < length (program c) \<longrightarrow> tbfcompile_step c = Inr c1 \<longrightarrow>
            d \<noteq> program c ! (program_counter c1 - 1) \<longrightarrow>
            run_time_dispatch c1 d = run_time_dispatch c d)
     \<and> (\<forall>t t1. tbfrun_step t = Inr t1 \<longrightarrow> run_time_dispatch t1 = run_time_dispatch t)
     \<and> (\<forall>t. program_counter t < length (program t) \<longrightarrow>
            run_time_dispatch t (program t ! program_counter t)
              = Some (PushDataspaceLabel (int (length (memory s)))) \<longrightarrow>
            tbfrun_step t =
              Inr (t\<lparr>program_counter := program_counter t + 1,
                     stack := int (length (memory s)) # stack t\<rparr>)
            \<and> tbfrun_loop t =
                tbfrun_loop (t\<lparr>program_counter := program_counter t + 1,
                               stack := int (length (memory s)) # stack t\<rparr>))"
proof (intro conjI allI impI)
  show "compile_time_dispatch CHR ''v'' = Some CDataspaceLabel"
    by (simp add: compile_time_dispatch_def)
next
  show st: "tbfcompile_step s =
           Inr (s\<lparr>program_counter := length pre + length ws + 2,
                  run_time_dispatch :=
                    (run_time_dispatch s)(name \<mapsto> PushDataspaceLabel (int (length (memory s))))\<rparr>)"
    using assms by (rule tbfcompile_step_v)
  from assms(1,2) have "program_counter s < length (program s)" by simp
  from this st show "tbfcompile s =
         tbfcompile (s\<lparr>program_counter := length pre + length ws + 2,
                  run_time_dispatch :=
                    (run_time_dispatch s)(name \<mapsto> PushDataspaceLabel (int (length (memory s))))\<rparr>)"
    by (rule tbfcompile_loop_step)
next
  fix c c1
  assume "program_counter c < length (program c)" "tbfcompile_step c = Inr c1"
    "program c ! program_counter c \<noteq> CHR ''v''" "program c ! program_counter c \<noteq> CHR '':''"
  then show "run_time_dispatch c1 = run_time_dispatch c"
    by (rule tbfcompile_step_run_time_dispatch)
next
  fix c c1 d
  assume "program_counter c < length (program c)" "tbfcompile_step c = Inr c1"
    "d \<noteq> program c ! (program_counter c1 - 1)"
  then show "run_time_dispatch c1 d = run_time_dispatch c d"
    by (rule tbfcompile_step_run_time_dispatch_other)
next
  fix t t1 assume "tbfrun_step t = Inr t1"
  then show "run_time_dispatch t1 = run_time_dispatch t"
    by (rule tbfrun_step_run_time_dispatch)
next
  fix t :: tbf_state
  assume "program_counter t < length (program t)"
    "run_time_dispatch t (program t ! program_counter t)
              = Some (PushDataspaceLabel (int (length (memory s))))"
  then show st: "tbfrun_step t =
              Inr (t\<lparr>program_counter := program_counter t + 1,
                     stack := int (length (memory s)) # stack t\<rparr>)"
    by (rule tbfrun_step_label)
  then show "tbfrun_loop t =
                tbfrun_loop (t\<lparr>program_counter := program_counter t + 1,
                               stack := int (length (memory s)) # stack t\<rparr>)"
    by (rule tbfrun_loop_step)
qed

theorem v_label_pushes_here_witness:
  "map_sum id (\<lambda>s. (program_counter s, run_time_dispatch s CHR ''x''))
     (tbfcompile_step (initial_state ''b 7 v x'' [] \<lparr>program_counter := 4, memory := [7]\<rparr>))
     = Inr (7, Some (PushDataspaceLabel 1))
   \<and> map_option (map_prod id stack) (main ''v a b 1 b 2 v c # 9 ^a c Q'' [])
       = Some (SystemExit, [2, 0])"
proof -
  let ?s = "initial_state ''b 7 v x'' [] \<lparr>program_counter := 4, memory := [7]\<rparr>"
  have "program ?s = ''b 7 '' @ CHR ''v'' # '' '' @ CHR ''x'' # []"
    "program_counter ?s = length ''b 7 ''"
    "set '' '' \<subseteq> set '' \<newline>''" "CHR ''x'' \<notin> set '' \<newline>''"
    by (simp_all add: initial_state_def)
  from v_label_pushes_here [OF this]
  have "tbfcompile_step ?s =
           Inr (?s\<lparr>program_counter := length ''b 7 '' + length '' '' + 2,
                  run_time_dispatch :=
                    (run_time_dispatch ?s)(CHR ''x'' \<mapsto> PushDataspaceLabel (int (length (memory ?s))))\<rparr>)"
    by blast
  then have 1: "map_sum id (\<lambda>s. (program_counter s, run_time_dispatch s CHR ''x''))
     (tbfcompile_step ?s) = Inr (7, Some (PushDataspaceLabel 1))"
    by simp
  have 2: "map_option (map_prod id stack) (main ''v a b 1 b 2 v c # 9 ^a c Q'' [])
       = Some (SystemExit, [2, 0])"
    by code_simp
  from 1 2 show ?thesis by blast
qed

subsection \<open>Undefined tokens\<close>

lemma excerpt_split:
  "pc < length text \<Longrightarrow>
     drop (pc - 9) (take (Suc pc) text) = drop (pc - 9) (take pc text) @ [text ! pc]"
  by (simp add: take_Suc_conv_app_nth)

text \<open>
  C8, as stated, fails: the excerpt \<^verbatim>\<open>tbfcompile\<close> reports is cut after the counter has
  moved past the offending byte, so it ends with that byte and holds at most nine bytes
  before it. Here ten bytes precede the \<^verbatim>\<open>?\<close>, and the report differs from them.
\<close>

theorem undefined_token_excerpt_counterexample:
  "tbfcompile (initial_state ''0123456789?'' [])
     = Some (Inl (AssertionError (Some (CHR ''?'', ''123456789?''))))
   \<and> spec_excerpt ''0123456789?'' 10 = ''0123456789''
   \<and> ''123456789?'' \<noteq> spec_excerpt ''0123456789?'' 10"
  by code_simp

text \<open>
  C8, amended. A byte that is neither a key of \<^verbatim>\<open>compile_time_dispatch\<close> nor of
  \<^verbatim>\<open>run_time_dispatch\<close> makes the pass raise an assertion reporting the byte and an
  excerpt of at most ten bytes: the up to nine bytes before it, then the byte itself. A
  byte that is no compile-time key but a run-time key is passed over, only the counter moves.
\<close>

theorem undefined_token_report:
  "program_counter s < length (program s) \<Longrightarrow>
   compile_time_dispatch (program s ! program_counter s) = None \<Longrightarrow>
     (run_time_dispatch s (program s ! program_counter s) = None \<longrightarrow>
        tbfcompile s =
          Some (Inl (AssertionError
            (Some (program s ! program_counter s,
                   drop (program_counter s - 9) (take (program_counter s) (program s))
                     @ [program s ! program_counter s]))))
        \<and> length (drop (program_counter s - 9) (take (program_counter s) (program s))) \<le> 9)
     \<and> (run_time_dispatch s (program s ! program_counter s) \<noteq> None \<longrightarrow>
          tbfcompile_step s = Inr (eat_byte s))"
  by (subst tbfcompile.simps)
     (auto simp: tbfcompile_step_def Let_def eat_byte_def excerpt_split)

theorem undefined_token_report_witness:
  "tbfcompile (initial_state ''b 1 ?'' []\<lparr>program_counter := 4\<rparr>)
     = Some (Inl (AssertionError (Some (CHR ''?'', ''b 1 ?''))))
   \<and> tbfcompile_step (initial_state ''b 1 +'' []\<lparr>program_counter := 4\<rparr>)
     = Inr (initial_state ''b 1 +'' []\<lparr>program_counter := 5\<rparr>)"
proof -
  let ?s = "initial_state ''b 1 ?'' []\<lparr>program_counter := 4\<rparr>"
  let ?t = "initial_state ''b 1 +'' []\<lparr>program_counter := 4\<rparr>"
  have s: "program_counter ?s < length (program ?s)"
    "compile_time_dispatch (program ?s ! program_counter ?s) = None"
    "run_time_dispatch ?s (program ?s ! program_counter ?s) = None"
    by (simp_all add: initial_state_def compile_time_dispatch_def initial_run_time_dispatch_def)
  have t: "program_counter ?t < length (program ?t)"
    "compile_time_dispatch (program ?t ! program_counter ?t) = None"
    "run_time_dispatch ?t (program ?t ! program_counter ?t) \<noteq> None"
    by (simp_all add: initial_state_def compile_time_dispatch_def initial_run_time_dispatch_def)
  from undefined_token_report [OF s(1,2)] s(3) undefined_token_report [OF t(1,2)] t(3)
  show ?thesis by (simp add: initial_state_def eat_byte_def)
qed

subsection \<open>Literal bytes\<close>

text \<open>
  C3 fails on the code at the program text \<^verbatim>\<open>b 300 \<close>: \<^verbatim>\<open>literal_byte\<close> appends the
  number as it was read, so \<open>memory\<close> holds 300, which is no byte; one element is appended
  and \<^verbatim>\<open>W\<close> on it later raises \<^verbatim>\<open>ValueError\<close> in \<^verbatim>\<open>chr\<close>. The sibling
  \<^verbatim>\<open>literal_word\<close> masks every element with 255.
\<close>

theorem literal_byte_not_a_byte:
  "map_option (map_sum id memory) (tbfcompile (initial_state ''b 300 '' [])) = Some (Inr [300])
   \<and> map_option (map_prod id memory) (main ''b 300 ^0 1WQ'' []) = Some (ValueError, [300])
   \<and> map_option (map_sum id memory) (tbfcompile (initial_state ''# 300 '' []))
       = Some (Inr [44, 1, 0, 0])"
  by code_simp

subsection \<open>Access outside the Dataspace extent\<close>

lemma length_as_bytes: "length (as_bytes v) = 4"
  by (simp add: as_bytes_def)

lemma getslice_short:
  "0 \<le> i \<Longrightarrow> int (length xs) < i + 4 \<Longrightarrow> length (getslice xs i (i + 4)) < 4"
  by (auto simp: getslice_def slice_index_def Let_def)

lemma fetch_past_end:
  assumes "stack s = addr # rest" "0 \<le> addr" "int (length (memory s)) < addr + 4"
  shows "fetch s = Inl IndexError"
  using assms getslice_short [of addr "memory s"]
  by (simp add: fetch_def decode_def)

lemma getitem_Inl: "getitem xs i = Inl e \<Longrightarrow> e = IndexError"
  by (simp add: getitem_def split: if_splits)

lemma getitem_Inr: "getitem xs i = Inr v \<Longrightarrow> v \<in> set xs"
  by (auto simp: getitem_def split: if_splits)

lemma chars_at_fails:
  "\<exists>ii\<in>set iis. getitem mem ii = Inl IndexError \<Longrightarrow>
     chars_at mem iis = Inl IndexError \<or> chars_at mem iis = Inl ValueError"
proof (induction iis)
  case Nil
  then show ?case by simp
next
  case (Cons ii iis)
  show ?case
  proof (cases "getitem mem ii")
    case (Inl e)
    then show ?thesis by (simp add: getitem_Inl)
  next
    case (Inr v)
    with Cons.prems have "\<exists>ii\<in>set iis. getitem mem ii = Inl IndexError" by auto
    from Cons.IH [OF this] Inr show ?thesis
      by (auto simp: py_chr_def split: sum.splits)
  qed
qed

lemma chars_at_fails_bytes:
  "\<forall>b\<in>set mem. 0 \<le> b \<and> b < 256 \<Longrightarrow> \<exists>ii\<in>set iis. getitem mem ii = Inl IndexError \<Longrightarrow>
     chars_at mem iis = Inl IndexError"
proof (induction iis)
  case Nil
  then show ?case by simp
next
  case (Cons ii iis)
  show ?case
  proof (cases "getitem mem ii")
    case (Inl e)
    then show ?thesis by (simp add: getitem_Inl)
  next
    case (Inr v)
    with Cons.prems have "\<exists>ii\<in>set iis. getitem mem ii = Inl IndexError" by auto
    with Cons have rest: "chars_at mem iis = Inl IndexError" by blast
    from Inr have "v \<in> set mem" by (rule getitem_Inr)
    with Cons.prems(1) have "py_chr v = Inr (char_of v)" by (simp add: py_chr_def)
    with Inr rest show ?thesis by simp
  qed
qed

lemma py_range_member: "k < nat (b - a) \<Longrightarrow> a + int k \<in> set (py_range a b)"
  by (simp add: py_range_def)

lemma py_range_past_end:
  assumes "0 \<le> address" "0 < count" "int (length mem) < address + count"
  shows "\<exists>ii\<in>set (py_range address (address + count)). getitem mem ii = Inl IndexError"
proof -
  define k where "k = nat (count - 1)"
  with assms(2) have "k < nat (address + count - address)" by simp
  then have "address + int k \<in> set (py_range address (address + count))"
    by (rule py_range_member)
  moreover have "getitem mem (address + int k) = Inl IndexError"
    using assms by (simp add: getitem_def k_def)
  ultimately show ?thesis by blast
qed

subsection \<open>Non-negative values\<close>

lemma nonnegative_label:
  "nonnegative s \<Longrightarrow> run_time_dispatch s c = Some (PushDataspaceLabel n) \<Longrightarrow> 0 \<le> n"
  unfolding nonnegative_def by (auto dest!: spec [of _ c])

lemma nonnegativeI:
  assumes "\<And>v. v \<in> set (stack s) \<Longrightarrow> 0 \<le> v" "\<And>b. b \<in> set (memory s) \<Longrightarrow> 0 \<le> b"
    and "\<And>c n. run_time_dispatch s c = Some (PushDataspaceLabel n) \<Longrightarrow> 0 \<le> n"
  shows "nonnegative s"
  unfolding nonnegative_def using assms
  by (auto split: option.splits action.splits)

lemma nonnegative_initial_state: "nonnegative (initial_state text input)"
  by (rule nonnegativeI)
     (auto simp: initial_state_def initial_run_time_dispatch_def split: if_splits)

lemma digit_value_nonnegative: "c \<in> set ''0123456789'' \<Longrightarrow> 0 \<le> digit_value c"
  by (auto simp: digit_value_def)

lemma foldl_digits_nonnegative:
  "\<forall>c\<in>set ds. 0 \<le> digit_value c \<Longrightarrow> 0 \<le> acc \<Longrightarrow>
     0 \<le> foldl (\<lambda>a c. 10 * a + digit_value c) acc ds"
  by (induction ds arbitrary: acc) simp_all

lemma eat_digits_scanned:
  "eat_digits s = Inr s1 \<Longrightarrow>
     \<forall>i. program_counter s \<le> i \<and> i < program_counter s1 \<longrightarrow> program s ! i \<in> set ''0123456789''"
proof (induction s rule: eat_digits.induct)
  case (1 s)
  from "1.prems" have lt: "program_counter s < length (program s)"
    by (subst (asm) eat_digits.simps) (simp split: if_splits)
  show ?case
  proof (cases "program s ! program_counter s \<in> set ''0123456789''")
    case True
    with "1.prems" lt have r: "eat_digits (eat_byte s) = Inr s1"
      by (subst (asm) eat_digits.simps) simp
    from "1.IH" [OF lt True r]
    have "\<forall>i. Suc (program_counter s) \<le> i \<and> i < program_counter s1 \<longrightarrow>
            program s ! i \<in> set ''0123456789''"
      by (simp add: eat_byte_def)
    with True show ?thesis
      by (metis Suc_leI le_neq_implies_less)
  next
    case False
    with "1.prems" lt have "s1 = s"
      by (subst (asm) eat_digits.simps) simp
    then show ?thesis by auto
  qed
qed

lemma read_number_nonnegative:
  assumes "read_number s = Inr (n, s1)"
  shows "0 \<le> n"
proof -
  from assms obtain s2 where e: "eat_digits s = Inr s2"
    and p: "py_int (take (program_counter s2 - program_counter s)
                     (drop (program_counter s) (program s2))) = Inr n"
    by (auto simp: read_number_def Let_def split: sum.splits)
  from eat_digits_Inr [OF e] obtain k where s2: "s2 = s\<lparr>program_counter := k\<rparr>"
    and k: "program_counter s \<le> k" "k < length (program s)" by blast
  let ?ds = "take (k - program_counter s) (drop (program_counter s) (program s))"
  have "\<forall>c\<in>set ?ds. 0 \<le> digit_value c"
  proof
    fix c assume "c \<in> set ?ds"
    then obtain j where j: "j < length ?ds" "?ds ! j = c"
      by (auto simp: in_set_conv_nth)
    with k have "c = program s ! (program_counter s + j)" "program_counter s + j < k"
      by simp_all
    with eat_digits_scanned [OF e] s2 have "c \<in> set ''0123456789''"
      by simp
    then show "0 \<le> digit_value c" by (rule digit_value_nonnegative)
  qed
  then have "0 \<le> foldl (\<lambda>a c. 10 * a + digit_value c) 0 ?ds"
    by (rule foldl_digits_nonnegative) simp
  with p s2 show ?thesis
    by (simp add: py_int_def split: if_splits)
qed

lemma as_bytes_bytes: "b \<in> set (as_bytes v) \<Longrightarrow> 0 \<le> b \<and> b < 256"
proof -
  have "0 \<le> take_bit 8 k \<and> take_bit 8 k < 256" for k :: int
    using take_bit_int_less_exp [of 8 k] by simp
  then show "b \<in> set (as_bytes v) \<Longrightarrow> 0 \<le> b \<and> b < 256"
    by (auto simp: as_bytes_def and_255)
qed

lemma set_getslice: "set (getslice xs i j) \<subseteq> set xs"
  unfolding getslice_def Let_def
  by (meson set_drop_subset set_take_subset subset_trans)

lemma set_setslice: "set (setslice xs i j ys) \<subseteq> set xs \<union> set ys"
  unfolding setslice_def Let_def
  using set_take_subset [of _ xs] set_drop_subset [of _ xs] by auto

lemma decode_nonnegative:
  assumes "decode bs = Inr v" "\<forall>b\<in>set bs. 0 \<le> b"
  shows "0 \<le> v"
proof -
  from assms(1) have len: "4 \<le> length bs"
    by (simp add: decode_def split: if_splits)
  from assms(2) have nn: "i < length bs \<Longrightarrow> 0 \<le> bs ! i" for i
    by (simp add: all_set_conv_all_nth)
  from len have "0 < length bs" "1 < length bs" "2 < length bs" "3 < length bs"
    by auto
  then have "0 \<le> bs ! 0" "0 \<le> bs ! 1" "0 \<le> bs ! 2" "0 \<le> bs ! 3"
    by (blast intro: nn)+
  with assms(1) len show ?thesis
    by (auto simp: decode_def)
qed

lemma nonnegative_stack: "nonnegative s \<Longrightarrow> v \<in> set (stack s) \<Longrightarrow> 0 \<le> v"
  by (simp add: nonnegative_def)

lemma nonnegative_memory: "nonnegative s \<Longrightarrow> b \<in> set (memory s) \<Longrightarrow> 0 \<le> b"
  by (simp add: nonnegative_def)

lemma nonnegative_program_counter [simp]:
  "nonnegative (s\<lparr>program_counter := n\<rparr>) = nonnegative s"
  by (simp add: nonnegative_def)

lemma nonnegative_start_address [simp]:
  "nonnegative (s\<lparr>start_address := a\<rparr>) = nonnegative s"
  by (simp add: nonnegative_def)

lemma nonnegative_rstack [simp]:
  "nonnegative (s\<lparr>rstack := r\<rparr>) = nonnegative s"
  by (simp add: nonnegative_def)

lemma nonnegative_stdin [simp]:
  "nonnegative (s\<lparr>stdin := i\<rparr>) = nonnegative s"
  by (simp add: nonnegative_def)

lemma nonnegative_stdout [simp]:
  "nonnegative (s\<lparr>stdout := out\<rparr>) = nonnegative s"
  by (simp add: nonnegative_def)

lemma nonnegative_stack_update:
  "nonnegative s \<Longrightarrow> \<forall>v\<in>set vs. 0 \<le> v \<Longrightarrow> nonnegative (s\<lparr>stack := vs\<rparr>)"
  by (simp add: nonnegative_def)

lemma nonnegative_memory_update:
  "nonnegative s \<Longrightarrow> \<forall>b\<in>set bs. 0 \<le> b \<Longrightarrow> nonnegative (s\<lparr>memory := bs\<rparr>)"
  by (simp add: nonnegative_def)

lemma nonnegative_define:
  assumes "nonnegative s" "\<And>n. a = PushDataspaceLabel n \<Longrightarrow> 0 \<le> n"
    and "run_time_dispatch s' = (run_time_dispatch s)(c \<mapsto> a)"
    and "stack s' = stack s" "memory s' = memory s"
  shows "nonnegative s'"
proof (rule nonnegativeI)
  fix v assume "v \<in> set (stack s')"
  with assms show "0 \<le> v" by (simp add: nonnegative_stack)
next
  fix b assume "b \<in> set (memory s')"
  with assms show "0 \<le> b" by (simp add: nonnegative_memory)
next
  fix d n assume "run_time_dispatch s' d = Some (PushDataspaceLabel n)"
  with assms(2,3) nonnegative_label [OF assms(1), of d n] show "0 \<le> n"
    by (auto split: if_splits)
qed

lemma of_char_nonnegative: "(0::int) \<le> of_char c"
  by (metis of_nat_of_char of_nat_0_le_iff)

lemma call_nonnegative:
  assumes "nonnegative s" "call a s = Inr s'" "\<And>n. a = PushDataspaceLabel n \<Longrightarrow> 0 \<le> n"
  shows "nonnegative s'"
proof (cases a)
  case EatComment
  with assms show ?thesis by (auto dest!: eat_comment_Inr)
next
  case WriteOut
  with assms show ?thesis
    by (auto simp: write_out_def nonnegative_def split: list.splits sum.splits)
next
  case ReadByte
  with assms show ?thesis
    by (auto simp: read_byte_def nonnegative_def of_char_nonnegative split: list.splits)
next
  case Quit
  with assms show ?thesis by (simp add: quit_def)
next
  case Add
  with assms show ?thesis
    by (auto simp: add_def nonnegative_def split: list.splits)
next
  case BitwiseNot
  with assms show ?thesis
    by (auto simp: bitwise_not_def nonnegative_def split: list.splits)
next
  case Fetch
  with assms obtain addr rest v where st: "stack s = addr # rest"
    and d: "decode (getslice (memory s) addr (addr + 4)) = Inr v"
    and s': "s' = s\<lparr>stack := v # rest\<rparr>"
    by (auto simp: fetch_def split: list.splits sum.splits)
  from assms(1) set_getslice [of "memory s" addr "addr + 4"]
  have "\<forall>b\<in>set (getslice (memory s) addr (addr + 4)). 0 \<le> b"
    by (auto dest: nonnegative_memory)
  with d have "0 \<le> v" by (rule decode_nonnegative)
  with assms(1) st s' show ?thesis
    by (auto simp: nonnegative_def)
next
  case Store
  with assms obtain addr v rest where st: "stack s = addr # v # rest"
    and s': "s' = s\<lparr>stack := rest, memory := setslice (memory s) addr (addr + 4) (as_bytes v)\<rparr>"
    by (auto simp: store_def split: list.splits)
  from assms(1) set_setslice [of "memory s" addr "addr + 4" "as_bytes v"]
  have "\<forall>b\<in>set (setslice (memory s) addr (addr + 4) (as_bytes v)). 0 \<le> b"
    by (auto dest: nonnegative_memory as_bytes_bytes)
  moreover from assms(1) st have "\<forall>v\<in>set rest. 0 \<le> v"
    by (auto dest: nonnegative_stack)
  ultimately show ?thesis using assms(1) s'
    by (simp add: nonnegative_def)
next
  case ReturnFromFunction
  with assms show ?thesis
    by (auto simp: return_from_function_def split: list.splits)
next
  case Nop
  with assms show ?thesis by simp
next
  case PushLiteral
  with assms obtain n s1 where r: "read_number (s\<lparr>program_counter := program_counter s - 1\<rparr>) = Inr (n, s1)"
    and s': "s' = s1\<lparr>stack := n # stack s1\<rparr>"
    by (auto simp: push_literal_def split: sum.splits)
  from read_number_nonnegative [OF r] have n: "0 \<le> n" .
  from read_number_Inr [OF r] obtain k where "s1 = s\<lparr>program_counter := k\<rparr>"
    by auto
  with assms(1) s' n show ?thesis
    by (auto simp: nonnegative_def)
next
  case (PushDataspaceLabel n)
  with assms show ?thesis
    by (auto simp: push_dataspace_label_def nonnegative_def)
next
  case (CallFunction n)
  with assms show ?thesis by (auto simp: call_function_def)
qed

lemma tbfrun_step_nonnegative:
  assumes "nonnegative s" "tbfrun_step s = Inr s'"
  shows "nonnegative s'"
proof -
  from assms(2) obtain a where a: "run_time_dispatch s (program s ! program_counter s) = Some a"
    and c: "call a (eat_byte s) = Inr s'"
    by (auto simp: tbfrun_step_def Let_def eat_byte_def split: if_splits option.splits)
  from assms(1) have "nonnegative (eat_byte s)" by (simp add: eat_byte_def)
  moreover have "0 \<le> n" if "a = PushDataspaceLabel n" for n
    using that a assms(1) by (auto dest: nonnegative_label)
  ultimately show ?thesis using c by (blast intro: call_nonnegative)
qed

lemma compile_call_nonnegative:
  assumes "nonnegative s" "compile_call a s = Inr s1"
  shows "nonnegative s1"
proof (cases a)
  case CEatComment
  with assms show ?thesis by (auto dest!: eat_comment_Inr)
next
  case CDataspaceLabel
  with assms show ?thesis
    by (auto simp: dataspace_label_def Let_def eat_byte_def split: sum.splits if_splits
          dest!: advance_past_whitespace_Inr
          intro!: nonnegative_define [where s = s and a = "PushDataspaceLabel (int (length (memory s)))"])
next
  case CDefineFunction
  with assms show ?thesis
    by (auto simp: define_function_def Let_def eat_byte_def split: sum.splits if_splits
          dest!: advance_past_whitespace_Inr
          intro!: nonnegative_define [where s = s])
next
  case CLiteralByte
  with assms obtain s0 n s2 where w: "advance_past_whitespace s = Inr s0"
    and r: "read_number s0 = Inr (n, s2)" and s1: "s1 = s2\<lparr>memory := memory s2 @ [n]\<rparr>"
    by (auto simp: literal_byte_def split: sum.splits)
  from read_number_nonnegative [OF r] have n: "0 \<le> n" .
  from advance_past_whitespace_Inr [OF w] read_number_Inr [OF r]
  obtain k where "s2 = s\<lparr>program_counter := k\<rparr>" by auto
  with assms(1) s1 n show ?thesis
    by (auto simp: nonnegative_def)
next
  case CLiteralWord
  with assms obtain s0 n s2 where w: "advance_past_whitespace s = Inr s0"
    and r: "read_number s0 = Inr (n, s2)" and s1: "s1 = s2\<lparr>memory := memory s2 @ as_bytes n\<rparr>"
    by (auto simp: literal_word_def split: sum.splits)
  from advance_past_whitespace_Inr [OF w] read_number_Inr [OF r]
  obtain k where "s2 = s\<lparr>program_counter := k\<rparr>" by auto
  with assms(1) s1 show ?thesis
    by (auto simp: nonnegative_def dest: as_bytes_bytes)
next
  case CSetStartAddress
  with assms show ?thesis by (auto simp: set_start_address_def)
next
  case CNop
  with assms show ?thesis by simp
qed

lemma tbfcompile_step_nonnegative:
  assumes "nonnegative s" "tbfcompile_step s = Inr s1"
  shows "nonnegative s1"
proof (cases "compile_time_dispatch (program s ! program_counter s)")
  case None
  with assms(2) have "s1 = eat_byte s"
    by (simp add: tbfcompile_step_def Let_def split: if_splits)
  with assms(1) show ?thesis by (simp add: eat_byte_def)
next
  case (Some a)
  with assms(2) have "compile_call a (eat_byte s) = Inr s1"
    by (simp add: tbfcompile_step_def Let_def)
  moreover from assms(1) have "nonnegative (eat_byte s)" by (simp add: eat_byte_def)
  ultimately show ?thesis by (blast intro: compile_call_nonnegative)
qed

lemma tbfcompile_nonnegative:
  "tbfcompile s = Some (Inr s') \<Longrightarrow> nonnegative s \<Longrightarrow> nonnegative s'"
proof (induction rule: tbfcompile_returns_induct)
  case (stop s)
  then show ?case by simp
next
  case (step s s1 s')
  from tbfcompile_step_nonnegative [OF step.prems step(2)] step.IH show ?case by simp
qed

subsection \<open>The three accesses, one iteration of the run loop each\<close>

lemma setslice_nonnegative:
  assumes "0 \<le> i"
  shows "setslice xs i (i + 4) ys = take (nat i) xs @ ys @ drop (nat i + 4) xs"
proof -
  from assms have lo: "slice_index (length xs) i = min (length xs) (nat i)"
    and hi: "slice_index (length xs) (i + 4) = min (length xs) (nat i + 4)"
    by (auto simp: slice_index_def)
  have "max (min (length xs) (nat i)) (min (length xs) (nat i + 4)) = min (length xs) (nat i + 4)"
    by simp
  with lo hi show ?thesis
    by (simp add: setslice_def Let_def min_def)
qed

lemma overwrite_four:
  fixes xs ys :: "'a list" and a :: nat
  assumes "length ys = 4"
  defines "zs \<equiv> take a xs @ ys @ drop (a + 4) xs"
  shows "length xs \<le> length zs" "length zs \<le> length xs + 4"
    and "\<And>i. i < length xs \<Longrightarrow> i < a \<or> a + 4 \<le> i \<Longrightarrow> zs ! i = xs ! i"
    and "a + 4 \<le> length xs \<Longrightarrow> length zs = length xs"
    and "length xs < a + 4 \<Longrightarrow> length zs = min a (length xs) + 4"
proof -
  show "length xs \<le> length zs" "length zs \<le> length xs + 4"
    "a + 4 \<le> length xs \<Longrightarrow> length zs = length xs"
    "length xs < a + 4 \<Longrightarrow> length zs = min a (length xs) + 4"
    using assms(1) by (auto simp: zs_def)
  fix i assume i: "i < length xs" "i < a \<or> a + 4 \<le> i"
  show "zs ! i = xs ! i"
  proof (cases "i < a")
    case True
    with i(1) show ?thesis by (simp add: zs_def nth_append)
  next
    case False
    with i have ge: "a + 4 \<le> i" by simp
    with i(1) have la: "length (take a xs) = a" by simp
    from ge have n1: "\<not> i < a" and n2: "\<not> i - a < 4" by arith+
    have "zs ! i = (ys @ drop (a + 4) xs) ! (i - a)"
      unfolding zs_def using la n1 by (simp only: nth_append if_False)
    also have "\<dots> = drop (a + 4) xs ! (i - a - 4)"
      using n2 assms(1) by (simp only: nth_append if_False)
    also from ge i(1) have "\<dots> = xs ! i" by simp
    finally show ?thesis .
  qed
qed

lemma tbfrun_step_fetch_past_end:
  assumes "nonnegative s" "program_counter s < length (program s)"
    and "program s ! program_counter s = CHR ''@''" "run_time_dispatch s CHR ''@'' = Some Fetch"
    and "stack s = addr # rest" "addr < 0 \<or> int (length (memory s)) < addr + 4"
  shows "tbfrun_step s = Inl IndexError"
proof -
  from assms(1,5) have "0 \<le> addr" by (auto dest: nonnegative_stack)
  with assms(6) have past: "int (length (memory s)) < addr + 4" by simp
  have "fetch (eat_byte s) = Inl IndexError"
    using assms(5) \<open>0 \<le> addr\<close> past by (intro fetch_past_end) (simp_all add: eat_byte_def)
  with assms(2,3,4) show ?thesis
    by (simp add: tbfrun_step_def Let_def eat_byte_def)
qed

lemma tbfrun_step_write_out_past_end:
  assumes "nonnegative s" "program_counter s < length (program s)"
    and "program s ! program_counter s = CHR ''W''" "run_time_dispatch s CHR ''W'' = Some WriteOut"
    and "stack s = count # address # rest" "0 < count"
    and "address < 0 \<or> int (length (memory s)) < address + count"
  shows "tbfrun_step s = Inl IndexError \<or> tbfrun_step s = Inl ValueError"
    and "\<forall>b\<in>set (memory s). b < 256 \<Longrightarrow> tbfrun_step s = Inl IndexError"
proof -
  from assms(1,5) have "0 \<le> address" by (auto dest: nonnegative_stack)
  with assms(7) have past: "int (length (memory s)) < address + count" by simp
  from py_range_past_end [OF \<open>0 \<le> address\<close> assms(6) past]
  have bad: "\<exists>ii\<in>set (py_range address (address + count)). getitem (memory s) ii = Inl IndexError" .
  have step: "tbfrun_step s = write_out (eat_byte s)"
    using assms(2,3,4) by (simp add: tbfrun_step_def Let_def eat_byte_def)
  from chars_at_fails [OF bad] assms(5)
  show "tbfrun_step s = Inl IndexError \<or> tbfrun_step s = Inl ValueError"
    unfolding step by (auto simp: write_out_def eat_byte_def)
  assume "\<forall>b\<in>set (memory s). b < 256"
  with assms(1) have "\<forall>b\<in>set (memory s). 0 \<le> b \<and> b < 256"
    by (auto dest: nonnegative_memory)
  from chars_at_fails_bytes [OF this bad] assms(5)
  show "tbfrun_step s = Inl IndexError"
    unfolding step by (simp add: write_out_def eat_byte_def)
qed

lemma tbfrun_step_write_out_nothing:
  assumes "program_counter s < length (program s)"
    and "program s ! program_counter s = CHR ''W''" "run_time_dispatch s CHR ''W'' = Some WriteOut"
    and "stack s = 0 # address # rest"
  shows "tbfrun_step s = Inr (s\<lparr>program_counter := program_counter s + 1, stack := rest\<rparr>)"
  using assms
  by (simp add: tbfrun_step_def Let_def eat_byte_def write_out_def py_range_def)

lemma tbfrun_step_store:
  assumes "nonnegative s" "program_counter s < length (program s)"
    and "run_time_dispatch s (program s ! program_counter s) = Some Store"
    and "stack s = addr # v # rest"
  shows "tbfrun_step s =
           Inr (s\<lparr>program_counter := program_counter s + 1, stack := rest,
                  memory := take (nat addr) (memory s) @ as_bytes v
                              @ drop (nat addr + 4) (memory s)\<rparr>)"
    and "0 \<le> addr"
proof -
  from assms(1,4) show "0 \<le> addr" by (auto dest: nonnegative_stack)
  with assms(2,3,4) show "tbfrun_step s =
           Inr (s\<lparr>program_counter := program_counter s + 1, stack := rest,
                  memory := take (nat addr) (memory s) @ as_bytes v
                              @ drop (nat addr + 4) (memory s)\<rparr>)"
    by (simp add: tbfrun_step_def Let_def eat_byte_def store_def setslice_nonnegative)
qed

text \<open>
  C1, as stated, fails: in the program text \<^verbatim>\<open>^7 9!Q\<close> the \<^verbatim>\<open>!\<close> at address 9 of an
  empty \<open>memory\<close> returns and leaves four bytes there, and in \<^verbatim>\<open>^9 0WQ\<close> the \<^verbatim>\<open>W\<close> of
  no byte at address 9 returns; both runs go on to \<^verbatim>\<open>Q\<close>.
\<close>

theorem out_of_range_store_counterexample:
  "map_option (map_prod id memory) (main ''^7 9!Q'' []) = Some (SystemExit, [7, 0, 0, 0])
   \<and> map_option (map_prod id stdout) (main ''^9 0WQ'' []) = Some (SystemExit, [])"
  by code_simp

text \<open>
  C1, amended. No value on the stack is negative, in any state a program reaches, so no
  address is below 0. An iteration of the run loop at \<^verbatim>\<open>@\<close> whose four bytes reach beyond
  the length of \<open>memory\<close> raises \<^verbatim>\<open>IndexError\<close> and ends the loop. One at \<^verbatim>\<open>W\<close> with a
  positive count whose range reaches beyond the length ends the loop too: with
  \<^verbatim>\<open>IndexError\<close> when \<open>memory\<close> holds bytes only, else possibly with \<^verbatim>\<open>ValueError\<close> at an
  earlier element. \<^verbatim>\<open>W\<close> with count 0 writes nothing and returns at any address.
  \<^verbatim>\<open>!\<close> never raises on its address: it returns, having overwritten the bytes of its
  range that lie inside the extent and put the others at the tail; at an address at or
  beyond the length it appends the four bytes.
\<close>

theorem dataspace_access_past_end:
  "nonnegative (initial_state ptext input)
   \<and> (\<forall>c c'. nonnegative c \<longrightarrow> tbfcompile c = Some (Inr c') \<longrightarrow> nonnegative c')
   \<and> (\<forall>r r'. nonnegative r \<longrightarrow> tbfrun_step r = Inr r' \<longrightarrow> nonnegative r')
   \<and> initial_run_time_dispatch CHR ''@'' = Some Fetch
   \<and> initial_run_time_dispatch CHR ''W'' = Some WriteOut
   \<and> initial_run_time_dispatch CHR ''!'' = Some Store
   \<and> (nonnegative s \<longrightarrow> program_counter s < length (program s) \<longrightarrow>
        program s ! program_counter s = CHR ''@'' \<longrightarrow> run_time_dispatch s CHR ''@'' = Some Fetch \<longrightarrow>
        stack s = addr # rest \<longrightarrow> (addr < 0 \<or> int (length (memory s)) < addr + 4) \<longrightarrow>
        tbfrun_step s = Inl IndexError \<and> tbfrun_loop s = Some (IndexError, s))
   \<and> (nonnegative s \<longrightarrow> program_counter s < length (program s) \<longrightarrow>
        program s ! program_counter s = CHR ''W'' \<longrightarrow> run_time_dispatch s CHR ''W'' = Some WriteOut \<longrightarrow>
        stack s = count # address # rest \<longrightarrow> 0 < count \<longrightarrow>
        (address < 0 \<or> int (length (memory s)) < address + count) \<longrightarrow>
        (tbfrun_loop s = Some (IndexError, s) \<or> tbfrun_loop s = Some (ValueError, s))
        \<and> ((\<forall>b\<in>set (memory s). b < 256) \<longrightarrow>
              tbfrun_step s = Inl IndexError \<and> tbfrun_loop s = Some (IndexError, s)))
   \<and> (program_counter s < length (program s) \<longrightarrow>
        program s ! program_counter s = CHR ''W'' \<longrightarrow> run_time_dispatch s CHR ''W'' = Some WriteOut \<longrightarrow>
        stack s = 0 # address # rest \<longrightarrow>
        tbfrun_step s = Inr (s\<lparr>program_counter := program_counter s + 1, stack := rest\<rparr>))
   \<and> (nonnegative s \<longrightarrow> program_counter s < length (program s) \<longrightarrow>
        program s ! program_counter s = CHR ''!'' \<longrightarrow> run_time_dispatch s CHR ''!'' = Some Store \<longrightarrow>
        stack s = addr # v # rest \<longrightarrow>
        tbfrun_step s =
          Inr (s\<lparr>program_counter := program_counter s + 1, stack := rest,
                 memory := take (nat addr) (memory s) @ as_bytes v
                             @ drop (nat addr + 4) (memory s)\<rparr>)
        \<and> (int (length (memory s)) \<le> addr \<longrightarrow>
             tbfrun_step s =
               Inr (s\<lparr>program_counter := program_counter s + 1, stack := rest,
                      memory := memory s @ as_bytes v\<rparr>)))"
proof (intro conjI allI impI)
  show "nonnegative (initial_state ptext input)"
    by (rule nonnegative_initial_state)
next
  fix c c' assume "nonnegative c" "tbfcompile c = Some (Inr c')"
  then show "nonnegative c'" by (blast intro: tbfcompile_nonnegative)
next
  fix r r' assume "nonnegative r" "tbfrun_step r = Inr r'"
  then show "nonnegative r'" by (rule tbfrun_step_nonnegative)
next
  show "initial_run_time_dispatch CHR ''@'' = Some Fetch"
    "initial_run_time_dispatch CHR ''W'' = Some WriteOut"
    "initial_run_time_dispatch CHR ''!'' = Some Store"
    by (simp_all add: initial_run_time_dispatch_def)
next
  assume "nonnegative s" "program_counter s < length (program s)"
    "program s ! program_counter s = CHR ''@''" "run_time_dispatch s CHR ''@'' = Some Fetch"
    "stack s = addr # rest" "addr < 0 \<or> int (length (memory s)) < addr + 4"
  then show st: "tbfrun_step s = Inl IndexError"
    by (rule tbfrun_step_fetch_past_end)
  then show "tbfrun_loop s = Some (IndexError, s)"
    by (rule tbfrun_loop_raise)
next
  assume a: "nonnegative s" "program_counter s < length (program s)"
    "program s ! program_counter s = CHR ''W''" "run_time_dispatch s CHR ''W'' = Some WriteOut"
    "stack s = count # address # rest" "0 < count"
    "address < 0 \<or> int (length (memory s)) < address + count"
  from tbfrun_step_write_out_past_end(1) [OF a]
  show "tbfrun_loop s = Some (IndexError, s) \<or> tbfrun_loop s = Some (ValueError, s)"
    by (auto dest: tbfrun_loop_raise)
  assume "\<forall>b\<in>set (memory s). b < 256"
  from tbfrun_step_write_out_past_end(2) [OF a this]
  show st: "tbfrun_step s = Inl IndexError" .
  then show "tbfrun_loop s = Some (IndexError, s)"
    by (rule tbfrun_loop_raise)
next
  assume "program_counter s < length (program s)"
    "program s ! program_counter s = CHR ''W''" "run_time_dispatch s CHR ''W'' = Some WriteOut"
    "stack s = 0 # address # rest"
  then show "tbfrun_step s = Inr (s\<lparr>program_counter := program_counter s + 1, stack := rest\<rparr>)"
    by (rule tbfrun_step_write_out_nothing)
next
  assume a: "nonnegative s" "program_counter s < length (program s)"
    "program s ! program_counter s = CHR ''!''" "run_time_dispatch s CHR ''!'' = Some Store"
    "stack s = addr # v # rest"
  from a(3,4) have d: "run_time_dispatch s (program s ! program_counter s) = Some Store"
    by simp
  from tbfrun_step_store(1) [OF a(1,2) d a(5)]
  show st: "tbfrun_step s =
          Inr (s\<lparr>program_counter := program_counter s + 1, stack := rest,
                 memory := take (nat addr) (memory s) @ as_bytes v
                             @ drop (nat addr + 4) (memory s)\<rparr>)" .
  assume "int (length (memory s)) \<le> addr"
  with st show "tbfrun_step s =
               Inr (s\<lparr>program_counter := program_counter s + 1, stack := rest,
                      memory := memory s @ as_bytes v\<rparr>)"
    by simp
qed

theorem dataspace_access_past_end_witness:
  "tbfrun_loop (initial_state ''@'' [] \<lparr>stack := [0], memory := [65, 66]\<rparr>)
     = Some (IndexError, initial_state ''@'' [] \<lparr>stack := [0], memory := [65, 66]\<rparr>)
   \<and> tbfrun_loop (initial_state ''W'' [] \<lparr>stack := [2, 1], memory := [65, 66]\<rparr>)
     = Some (IndexError, initial_state ''W'' [] \<lparr>stack := [2, 1], memory := [65, 66]\<rparr>)
   \<and> tbfrun_step (initial_state ''!'' [] \<lparr>stack := [3, 7], memory := [65, 66]\<rparr>)
     = Inr (initial_state ''!'' []
              \<lparr>program_counter := 1, stack := [], memory := [65, 66, 7, 0, 0, 0]\<rparr>)
   \<and> map_option fst (main ''b 65 b 66 ^0@Q'' []) = Some IndexError
   \<and> map_option fst (main ''b 65 b 66 ^1 2WQ'' []) = Some IndexError"
proof -
  let ?f = "initial_state ''@'' [] \<lparr>stack := [0], memory := [65, 66]\<rparr>"
  let ?w = "initial_state ''W'' [] \<lparr>stack := [2, 1], memory := [65, 66]\<rparr>"
  let ?s = "initial_state ''!'' [] \<lparr>stack := [3, 7], memory := [65, 66]\<rparr>"
  have "nonnegative (initial_state p [])" for p
    by (rule dataspace_access_past_end [THEN conjunct1])
  then have nn: "nonnegative ?f" "nonnegative ?w" "nonnegative ?s"
    by (simp_all add: nonnegative_stack_update nonnegative_memory_update)
  have f: "program_counter ?f < length (program ?f)" "program ?f ! program_counter ?f = CHR ''@''"
    "run_time_dispatch ?f CHR ''@'' = Some Fetch" "stack ?f = 0 # []"
    "(0::int) < 0 \<or> int (length (memory ?f)) < 0 + 4"
    by (simp_all add: initial_state_def initial_run_time_dispatch_def)
  have w: "program_counter ?w < length (program ?w)" "program ?w ! program_counter ?w = CHR ''W''"
    "run_time_dispatch ?w CHR ''W'' = Some WriteOut" "stack ?w = 2 # 1 # []" "(0::int) < 2"
    "(1::int) < 0 \<or> int (length (memory ?w)) < 1 + 2" "\<forall>b\<in>set (memory ?w). b < 256"
    by (simp_all add: initial_state_def initial_run_time_dispatch_def)
  have s: "program_counter ?s < length (program ?s)" "program ?s ! program_counter ?s = CHR ''!''"
    "run_time_dispatch ?s CHR ''!'' = Some Store" "stack ?s = 3 # 7 # []"
    "int (length (memory ?s)) \<le> 3"
    by (simp_all add: initial_state_def initial_run_time_dispatch_def)
  have "nonnegative ?f \<longrightarrow> program_counter ?f < length (program ?f) \<longrightarrow>
        program ?f ! program_counter ?f = CHR ''@'' \<longrightarrow> run_time_dispatch ?f CHR ''@'' = Some Fetch \<longrightarrow>
        stack ?f = 0 # [] \<longrightarrow> ((0::int) < 0 \<or> int (length (memory ?f)) < 0 + 4) \<longrightarrow>
        tbfrun_step ?f = Inl IndexError \<and> tbfrun_loop ?f = Some (IndexError, ?f)"
    using dataspace_access_past_end [where s = ?f and addr = 0 and rest = "[]"
        and ptext = "[]" and input = "[]" and count = 0 and address = 0 and v = 0]
    by - (elim conjE, assumption)
  with nn(1) f have 1: "tbfrun_loop ?f = Some (IndexError, ?f)" by blast
  have "nonnegative ?w \<longrightarrow> program_counter ?w < length (program ?w) \<longrightarrow>
        program ?w ! program_counter ?w = CHR ''W'' \<longrightarrow> run_time_dispatch ?w CHR ''W'' = Some WriteOut \<longrightarrow>
        stack ?w = 2 # 1 # [] \<longrightarrow> (0::int) < 2 \<longrightarrow>
        ((1::int) < 0 \<or> int (length (memory ?w)) < 1 + 2) \<longrightarrow>
        (tbfrun_loop ?w = Some (IndexError, ?w) \<or> tbfrun_loop ?w = Some (ValueError, ?w))
        \<and> ((\<forall>b\<in>set (memory ?w). b < 256) \<longrightarrow>
              tbfrun_step ?w = Inl IndexError \<and> tbfrun_loop ?w = Some (IndexError, ?w))"
    using dataspace_access_past_end
      [where s = ?w and count = 2 and address = 1 and rest = "[]"
        and ptext = "[]" and input = "[]" and addr = 0 and v = 0]
    by - (elim conjE, assumption)
  with nn(2) w have 2: "tbfrun_loop ?w = Some (IndexError, ?w)" by blast
  have "nonnegative ?s \<longrightarrow> program_counter ?s < length (program ?s) \<longrightarrow>
        program ?s ! program_counter ?s = CHR ''!'' \<longrightarrow> run_time_dispatch ?s CHR ''!'' = Some Store \<longrightarrow>
        stack ?s = 3 # 7 # [] \<longrightarrow>
        tbfrun_step ?s =
          Inr (?s\<lparr>program_counter := program_counter ?s + 1, stack := [],
                 memory := take (nat 3) (memory ?s) @ as_bytes 7
                             @ drop (nat 3 + 4) (memory ?s)\<rparr>)
        \<and> (int (length (memory ?s)) \<le> 3 \<longrightarrow>
             tbfrun_step ?s =
               Inr (?s\<lparr>program_counter := program_counter ?s + 1, stack := [],
                      memory := memory ?s @ as_bytes 7\<rparr>))"
    using dataspace_access_past_end [where s = ?s and addr = 3 and v = 7 and rest = "[]"
        and ptext = "[]" and input = "[]" and count = 0 and address = 0]
    by - (elim conjE, assumption)
  with nn(3) s have "tbfrun_step ?s =
      Inr (?s\<lparr>program_counter := program_counter ?s + 1, stack := [],
              memory := memory ?s @ as_bytes 7\<rparr>)"
    by blast
  then have 3: "tbfrun_step ?s
     = Inr (initial_state ''!'' []
              \<lparr>program_counter := 1, stack := [], memory := [65, 66, 7, 0, 0, 0]\<rparr>)"
    by (simp add: initial_state_def as_bytes_def)
  have 4: "map_option fst (main ''b 65 b 66 ^0@Q'' []) = Some IndexError"
    "map_option fst (main ''b 65 b 66 ^1 2WQ'' []) = Some IndexError"
    by code_simp+
  from 1 2 3 4 show ?thesis by blast
qed

subsection \<open>Growth of the Dataspace\<close>

lemma call_memory:
  "call a s = Inr s' \<Longrightarrow> a \<noteq> Store \<Longrightarrow> memory s' = memory s"
  by (cases a)
     (auto simp: write_out_def read_byte_def quit_def add_def bitwise_not_def fetch_def
        return_from_function_def push_literal_def push_dataspace_label_def call_function_def
        split: list.splits sum.splits
        dest!: eat_comment_Inr read_number_Inr)

lemma tbfrun_step_memory:
  assumes "tbfrun_step s = Inr s'"
    and "run_time_dispatch s (program s ! program_counter s) \<noteq> Some Store"
  shows "memory s' = memory s"
proof -
  from assms(1) have lt: "program_counter s < length (program s)"
    by (simp add: tbfrun_step_def split: if_splits)
  with assms(1) obtain a where a: "run_time_dispatch s (program s ! program_counter s) = Some a"
    and c: "call a (eat_byte s) = Inr s'"
    by (auto simp: tbfrun_step_def Let_def eat_byte_def split: option.splits)
  from a assms(2) have "a \<noteq> Store" by auto
  with c have "memory s' = memory (eat_byte s)" by (rule call_memory)
  then show ?thesis by (simp add: eat_byte_def)
qed

text \<open>
  C2, as stated, fails: the program text \<^verbatim>\<open>^7 0!Q\<close> compiles to an empty \<open>memory\<close>, and
  its run pass ends at \<^verbatim>\<open>Q\<close> with four bytes in it.
\<close>

theorem run_pass_grows_memory_counterexample:
  "map_option (map_sum id memory) (tbfcompile (initial_state ''^7 0!Q'' [])) = Some (Inr [])
   \<and> map_option (map_prod id memory) (main ''^7 0!Q'' []) = Some (SystemExit, [7, 0, 0, 0])"
  by code_simp

lemma tbfrun_step_memory_bounds:
  assumes "nonnegative s" "tbfrun_step s = Inr s'"
  shows "length (memory s) \<le> length (memory s') \<and> length (memory s') \<le> length (memory s) + 4"
proof (cases "run_time_dispatch s (program s ! program_counter s) = Some Store")
  case False
  with tbfrun_step_memory [OF assms(2)] show ?thesis by simp
next
  case True
  from assms(2) have lt: "program_counter s < length (program s)"
    by (simp add: tbfrun_step_def split: if_splits)
  with assms(2) True obtain addr v rest where st: "stack s = addr # v # rest"
    by (auto simp: tbfrun_step_def Let_def eat_byte_def store_def split: list.splits)
  from tbfrun_step_store(1) [OF assms(1) lt True st] assms(2)
  have "memory s' = take (nat addr) (memory s) @ as_bytes v @ drop (nat addr + 4) (memory s)"
    by simp
  with overwrite_four(1,2) [OF length_as_bytes [of v], where xs = "memory s" and a = "nat addr"] show ?thesis
    by simp
qed

text \<open>
  C2, amended. \<open>memory\<close> never shrinks and never reorders. A compile pass that returns
  has only appended to it. In the run pass an iteration other than \<^verbatim>\<open>!\<close> leaves it as it
  is. A \<^verbatim>\<open>!\<close> at address \<open>addr\<close>, which is never negative, keeps every position outside
  \<open>addr .. addr + 3\<close>; it keeps the length when these four positions lie inside the extent,
  and otherwise extends \<open>memory\<close> at the tail, by at most four elements. So every address,
  once assigned, refers to the same position for the rest of the process, but the length
  can change during the run pass.
\<close>

theorem dataspace_never_shrinks:
  "(\<forall>s'. tbfcompile s = Some (Inr s') \<longrightarrow> (\<exists>xs. memory s' = memory s @ xs))
   \<and> (\<forall>s'. tbfrun_step s = Inr s' \<longrightarrow>
          run_time_dispatch s (program s ! program_counter s) \<noteq> Some Store \<longrightarrow>
          memory s' = memory s)
   \<and> (\<forall>s'. nonnegative s \<longrightarrow> tbfrun_step s = Inr s' \<longrightarrow>
          length (memory s) \<le> length (memory s')
          \<and> length (memory s') \<le> length (memory s) + 4)
   \<and> (\<forall>s'. nonnegative s \<longrightarrow> tbfrun_step s = Inr s' \<longrightarrow>
          run_time_dispatch s (program s ! program_counter s) = Some Store \<longrightarrow>
          stack s = addr # v # rest \<longrightarrow>
          0 \<le> addr
          \<and> memory s' = take (nat addr) (memory s) @ as_bytes v @ drop (nat addr + 4) (memory s)
          \<and> (\<forall>i<length (memory s). int i < addr \<or> addr + 4 \<le> int i \<longrightarrow>
                memory s' ! i = memory s ! i)
          \<and> (addr + 4 \<le> int (length (memory s)) \<longrightarrow> length (memory s') = length (memory s))
          \<and> (int (length (memory s)) < addr + 4 \<longrightarrow>
                length (memory s') = min (nat addr) (length (memory s)) + 4))
   \<and> nonnegative (initial_state ptext input)
   \<and> (\<forall>c c'. nonnegative c \<longrightarrow> tbfcompile c = Some (Inr c') \<longrightarrow> nonnegative c')
   \<and> (\<forall>r r'. nonnegative r \<longrightarrow> tbfrun_step r = Inr r' \<longrightarrow> nonnegative r')
   \<and> initial_run_time_dispatch CHR ''!'' = Some Store"
proof (intro conjI allI impI)
  fix s' assume "tbfcompile s = Some (Inr s')"
  then show "\<exists>xs. memory s' = memory s @ xs" by (rule tbfcompile_memory)
next
  fix s' assume "tbfrun_step s = Inr s'"
    "run_time_dispatch s (program s ! program_counter s) \<noteq> Some Store"
  then show "memory s' = memory s" by (rule tbfrun_step_memory)
next
  fix s' assume a: "nonnegative s" "tbfrun_step s = Inr s'"
  from tbfrun_step_memory_bounds [OF a]
  show "length (memory s) \<le> length (memory s')" "length (memory s') \<le> length (memory s) + 4"
    by simp_all
next
  fix s'
  assume a: "nonnegative s" "tbfrun_step s = Inr s'"
    "run_time_dispatch s (program s ! program_counter s) = Some Store"
    "stack s = addr # v # rest"
  from a(2) have lt: "program_counter s < length (program s)"
    by (simp add: tbfrun_step_def split: if_splits)
  from tbfrun_step_store(2) [OF a(1) lt a(3,4)] show nn: "0 \<le> addr" .
  from tbfrun_step_store(1) [OF a(1) lt a(3,4)] a(2)
  show m: "memory s' = take (nat addr) (memory s) @ as_bytes v @ drop (nat addr + 4) (memory s)"
    by simp
  note ow = overwrite_four [OF length_as_bytes [of v], where xs = "memory s" and a = "nat addr"]
  show "memory s' ! i = memory s ! i"
    if "i < length (memory s)" "int i < addr \<or> addr + 4 \<le> int i" for i
  proof -
    from that(2) nn have "i < nat addr \<or> nat addr + 4 \<le> i" by linarith
    with ow(3) [OF that(1)] m show ?thesis by simp
  qed
  show "length (memory s') = length (memory s)" if "addr + 4 \<le> int (length (memory s))"
  proof -
    from that nn have "nat addr + 4 \<le> length (memory s)" by linarith
    with ow(4) m show ?thesis by simp
  qed
  show "length (memory s') = min (nat addr) (length (memory s)) + 4"
    if "int (length (memory s)) < addr + 4"
  proof -
    from that nn have "length (memory s) < nat addr + 4" by linarith
    with ow(5) m show ?thesis by simp
  qed
next
  show "nonnegative (initial_state ptext input)"
    by (rule nonnegative_initial_state)
next
  fix c c' assume "nonnegative c" "tbfcompile c = Some (Inr c')"
  then show "nonnegative c'" by (blast intro: tbfcompile_nonnegative)
next
  fix r r' assume "nonnegative r" "tbfrun_step r = Inr r'"
  then show "nonnegative r'" by (rule tbfrun_step_nonnegative)
next
  show "initial_run_time_dispatch CHR ''!'' = Some Store"
    by (simp add: initial_run_time_dispatch_def)
qed

theorem dataspace_never_shrinks_witness:
  "(\<exists>s' xs. tbfcompile (initial_state ''b 1 # 2 '' [] \<lparr>memory := [9]\<rparr>) = Some (Inr s')
            \<and> memory s' = 9 # xs)
   \<and> (\<exists>s'. tbfrun_step (initial_state ''+'' [] \<lparr>stack := [1, 2], memory := [5]\<rparr>) = Inr s'
            \<and> memory s' = [5])
   \<and> (\<exists>s'. tbfrun_step (initial_state ''!'' [] \<lparr>stack := [1, 7], memory := [65, 66]\<rparr>) = Inr s'
            \<and> memory s' = [65, 7, 0, 0, 0])"
proof -
  let ?c = "initial_state ''b 1 # 2 '' [] \<lparr>memory := [9]\<rparr>"
  let ?r = "initial_state ''+'' [] \<lparr>stack := [1, 2], memory := [5]\<rparr>"
  let ?s = "initial_state ''!'' [] \<lparr>stack := [1, 7], memory := [65, 66]\<rparr>"
  have "map_option isl (tbfcompile ?c) = Some False" by code_simp
  then obtain c' where c: "tbfcompile ?c = Some (Inr c')"
    using not_isl_returned by blast
  have "\<forall>s'. tbfcompile ?c = Some (Inr s') \<longrightarrow> (\<exists>xs. memory s' = memory ?c @ xs)"
    by (rule dataspace_never_shrinks [THEN conjunct1])
  with c obtain xs where "memory c' = memory ?c @ xs" by blast
  with c have 1: "\<exists>s' xs. tbfcompile ?c = Some (Inr s') \<and> memory s' = 9 # xs" by simp
  have "\<not> isl (tbfrun_step ?r)" by code_simp
  then obtain r' where r: "tbfrun_step ?r = Inr r'"
    using not_isl_Inr by blast
  have "run_time_dispatch ?r (program ?r ! program_counter ?r) \<noteq> Some Store"
    by (simp add: initial_state_def initial_run_time_dispatch_def)
  moreover have "\<forall>s'. tbfrun_step ?r = Inr s' \<longrightarrow>
          run_time_dispatch ?r (program ?r ! program_counter ?r) \<noteq> Some Store \<longrightarrow>
          memory s' = memory ?r"
    by (rule dataspace_never_shrinks [THEN conjunct2, THEN conjunct1])
  ultimately have "memory r' = memory ?r" using r by blast
  with r have 2: "\<exists>s'. tbfrun_step ?r = Inr s' \<and> memory s' = [5]" by simp
  have "\<not> isl (tbfrun_step ?s)" by code_simp
  then obtain s' where s: "tbfrun_step ?s = Inr s'"
    using not_isl_Inr by blast
  have nn: "nonnegative ?s"
    using nonnegative_initial_state [of "''!''" "[]"]
    by (simp add: nonnegative_stack_update nonnegative_memory_update)
  have h: "run_time_dispatch ?s (program ?s ! program_counter ?s) = Some Store"
    "stack ?s = 1 # 7 # []"
    by (simp_all add: initial_state_def initial_run_time_dispatch_def)
  have "\<forall>s'. nonnegative ?s \<longrightarrow> tbfrun_step ?s = Inr s' \<longrightarrow>
          run_time_dispatch ?s (program ?s ! program_counter ?s) = Some Store \<longrightarrow>
          stack ?s = 1 # 7 # [] \<longrightarrow>
          0 \<le> (1::int)
          \<and> memory s' = take (nat 1) (memory ?s) @ as_bytes 7 @ drop (nat 1 + 4) (memory ?s)
          \<and> (\<forall>i<length (memory ?s). int i < 1 \<or> 1 + 4 \<le> int i \<longrightarrow>
                memory s' ! i = memory ?s ! i)
          \<and> (1 + 4 \<le> int (length (memory ?s)) \<longrightarrow> length (memory s') = length (memory ?s))
          \<and> (int (length (memory ?s)) < 1 + 4 \<longrightarrow>
                length (memory s') = min (nat 1) (length (memory ?s)) + 4)"
    by (rule dataspace_never_shrinks [where s = ?s and addr = 1 and v = 7 and rest = "[]",
          THEN conjunct2, THEN conjunct2, THEN conjunct2, THEN conjunct1])
  with nn s h
  have "memory s' = take (nat 1) (memory ?s) @ as_bytes 7 @ drop (nat 1 + 4) (memory ?s)"
    by blast
  then have "memory s' = [65, 7, 0, 0, 0]" by (simp add: as_bytes_def)
  with s have 3: "\<exists>s'. tbfrun_step ?s = Inr s' \<and> memory s' = [65, 7, 0, 0, 0]" by blast
  from 1 2 3 show ?thesis by blast
qed

end
